theory Spec2Isabelle
  imports Main "HOL-Library.AList" "HOL-Library.Char_ord" "HOL-Library.List_Lexorder"
begin

section \<open>Python values\<close>

text \<open>
  The Python values that \<open>flatten.py\<close> handles. A leaf is a \<open>str\<close>, a \<open>bytes\<close>, a
  \<open>torch.Tensor\<close> or any other object (the last two stand for opaque values of type \<open>'a\<close>);
  a container is a list, a tuple or a mapping. A mapping is the list of its items in insertion
  order; a key is a \<open>str\<close> or, standing for every other hashable key, an \<open>int\<close>. Exceptions
  are values of type \<open>error\<close>, and a function that can raise returns \<open>error + result\<close>.
\<close>

datatype error = KeyError | ValueError | AssertionError | IndexError | TypeError
  | NotImplementedError | SystemExit

datatype pykey = KStr string | KInt int

datatype 'a pyobj = PStr string | PBytes string | PTensor 'a | POther 'a
  | PList "'a pyobj list" | PTuple "'a pyobj list" | PDict "(pykey \<times> 'a pyobj) list"

text \<open>The classes that the code tests with \<open>isinstance\<close>.\<close>

datatype pyclass = Cstr | Cbytes | Clist | Ctuple | CMapping | CTensor

fun isinstance :: "'a pyobj \<Rightarrow> pyclass \<Rightarrow> bool" where
  "isinstance (PStr s) k = (k = Cstr)"
| "isinstance (PBytes s) k = (k = Cbytes)"
| "isinstance (PTensor t) k = (k = CTensor)"
| "isinstance (POther x) k = False"
| "isinstance (PList xs) k = (k = Clist)"
| "isinstance (PTuple xs) k = (k = Ctuple)"
| "isinstance (PDict kvs) k = (k = CMapping)"

text \<open>
  The keys of a Python mapping are distinct: \<open>wf_obj\<close> says so of every mapping of an object.
  \<open>struct_eq\<close> is structural equality: two objects have the same structure and the same
  leaves. Lists and tuples are compared elementwise, mappings key by key whatever the insertion
  order, and leaves are the same value (for a tensor or another object, where the value of type
  \<open>'a\<close> stands for the object itself: the same object).
\<close>

fun wf_obj :: "'a pyobj \<Rightarrow> bool" where
  "wf_obj (PList xs) = list_all wf_obj xs"
| "wf_obj (PTuple xs) = list_all wf_obj xs"
| "wf_obj (PDict kvs) = (distinct (map fst kvs) \<and> list_all (\<lambda>kv. wf_obj (snd kv)) kvs)"
| "wf_obj obj = True"

function (sequential) struct_eq :: "'a pyobj \<Rightarrow> 'a pyobj \<Rightarrow> bool" where
  "struct_eq (PList xs) (PList ys) = (length xs = length ys \<and> list_all (\<lambda>(x, y). struct_eq x y) (zip xs ys))"
| "struct_eq (PTuple xs) (PTuple ys) = (length xs = length ys \<and> list_all (\<lambda>(x, y). struct_eq x y) (zip xs ys))"
| "struct_eq (PDict kvs) (PDict kvs') = (length kvs = length kvs' \<and>
     list_all (\<lambda>(k, v). case map_of kvs' k of None \<Rightarrow> False | Some v' \<Rightarrow> struct_eq v v') kvs)"
| "struct_eq a b = (a = b)"
  by pat_completeness auto
termination
  by (relation "measure (\<lambda>(a, b). size a)") (auto dest: set_zip_leftD simp: less_Suc_eq_le size_list_estimation')

text \<open>
  Python's \<open>==\<close>. What \<open>a == b\<close> gives when \<open>a\<close> or \<open>b\<close> is a tensor or another object is
  decided by the \<open>__eq__\<close> of that object's class, which is arbitrary (\<open>float('nan')\<close> is not
  equal to itself, a \<open>UserList\<close> is equal to a list with the same elements): it is the
  parameter \<open>eqo\<close>, true when the comparison gives \<open>True\<close>. Strings and bytes are compared by
  value. Lists, tuples and mappings compare their elements and values as CPython does, with
  \<open>x is y or x == y\<close>; objects of different built-in kinds are not equal.
\<close>

fun opaque :: "'a pyobj \<Rightarrow> bool" where
  "opaque (PTensor t) = True"
| "opaque (POther x) = True"
| "opaque obj = False"

function (sequential) py_eq :: "('a pyobj \<Rightarrow> 'a pyobj \<Rightarrow> bool) \<Rightarrow> 'a pyobj \<Rightarrow> 'a pyobj \<Rightarrow> bool" where
  "py_eq eqo (PList xs) (PList ys) =
     (length xs = length ys \<and>
      list_all (\<lambda>(x, y). (opaque x \<and> x = y) \<or> py_eq eqo x y) (zip xs ys))"
| "py_eq eqo (PTuple xs) (PTuple ys) =
     (length xs = length ys \<and>
      list_all (\<lambda>(x, y). (opaque x \<and> x = y) \<or> py_eq eqo x y) (zip xs ys))"
| "py_eq eqo (PDict kvs) (PDict kvs') =
     (length kvs = length kvs' \<and>
      list_all (\<lambda>(k, v). case map_of kvs' k of None \<Rightarrow> False
                  | Some v' \<Rightarrow> (opaque v \<and> v = v') \<or> py_eq eqo v v') kvs)"
| "py_eq eqo (PStr s) (PStr t) = (s = t)"
| "py_eq eqo (PBytes s) (PBytes t) = (s = t)"
| "py_eq eqo a b = (if opaque a \<or> opaque b then eqo a b else False)"
  by pat_completeness auto
termination
  by (relation "measure (\<lambda>(eqo, a, b). size a)")
    (auto dest: set_zip_leftD simp: less_Suc_eq_le size_list_estimation')


section \<open>Schemas\<close>

text \<open>
  The dataclasses \<open>IdentitySchema\<close>, \<open>ListSchema\<close>, \<open>TupleSchema\<close> and \<open>DictSchema\<close>, with
  their fields. The \<open>sizes\<close> are natural numbers: they are lengths. Dataclass equality compares
  the class and the fields, as equality of this datatype does.
\<close>

datatype schema = IdentitySchema
  | ListSchema (schemas: "schema list") (sizes: "nat list")
  | TupleSchema (schemas: "schema list") (sizes: "nat list")
  | DictSchema (schemas: "schema list") (sizes: "nat list") (keys: "string list")

datatype schema_class = IdentitySchemaC | ListSchemaC | TupleSchemaC | DictSchemaC

text \<open>
  A list comprehension whose elements may raise: the first exception, or all the results.
\<close>

fun all_or_raise :: "(error + 'b) list \<Rightarrow> error + 'b list" where
  "all_or_raise [] = Inr []"
| "all_or_raise (r # rs) =
     (case r of Inl e \<Rightarrow> Inl e
      | Inr v \<Rightarrow> (case all_or_raise rs of Inl e \<Rightarrow> Inl e | Inr vs \<Rightarrow> Inr (v # vs)))"

text \<open>
  \<open>Schema._concat\<close> and \<open>Schema._split\<close>. A flattened result is a tuple, here a list, so the
  assertion of \<open>_concat\<close> holds by typing. \<open>slice values begin end\<close> is \<open>values[begin:end]\<close>.
\<close>

definition Schema_concat :: "'b list list \<Rightarrow> 'b list \<times> nat list" where
  "Schema_concat values =
     foldl (\<lambda>(ret, sizes') v. (ret @ v, sizes' @ [length v])) ([], []) values"

definition slice :: "'b list \<Rightarrow> nat \<Rightarrow> nat \<Rightarrow> 'b list" where
  "slice values begin end = take (end - begin) (drop begin values)"

definition Schema_split :: "'b list \<Rightarrow> nat list \<Rightarrow> error + 'b list list" where
  "Schema_split values sizes' =
     (if length sizes' \<noteq> 0 \<and> length values \<noteq> sum_list sizes' then Inl AssertionError
      else Inr (map (\<lambda>k. slice values (sum_list (take k sizes')) (sum_list (take (k + 1) sizes')))
                  [0..<length sizes']))"

text \<open>
  \<open>ListSchema.__call__\<close>; its first argument is the \<open>__call__\<close> of the element schemas. The
  subclasses wrap its result: \<open>tuple(...)\<close> and \<open>dict(zip(self.keys, ...))\<close>, where \<open>dict\<close> of a
  list of pairs inserts them in order, a later value replacing an earlier one in place.
\<close>

definition ListSchema_call ::
  "(schema \<Rightarrow> 'a pyobj list \<Rightarrow> error + 'a pyobj) \<Rightarrow> schema list \<Rightarrow> nat list \<Rightarrow> 'a pyobj list
     \<Rightarrow> error + 'a pyobj list" where
  "ListSchema_call call ss sz values =
     (case Schema_split values sz of Inl e \<Rightarrow> Inl e
      | Inr vs \<Rightarrow>
          if length vs \<noteq> length ss then Inl ValueError
          else all_or_raise (map (\<lambda>(m, v). call m v) (zip ss vs)))"

lemma ListSchema_call_cong [fundef_cong]:
  assumes "ss = ss'" "sz = sz'" "values = values'"
    and "\<And>m v. m \<in> set ss' \<Longrightarrow> f m v = g m v"
  shows "ListSchema_call f ss sz values = ListSchema_call g ss' sz' values'"
proof -
  have h: "map (\<lambda>(m, v). f m v) (zip ss' vs) = map (\<lambda>(m, v). g m v) (zip ss' vs)" for vs
    using assms(4) by (auto dest: set_zip_leftD)
  show ?thesis
    by (simp only: ListSchema_call_def assms(1-3) h)
qed

definition dict_of_pairs :: "('k \<times> 'v) list \<Rightarrow> ('k \<times> 'v) list" where
  "dict_of_pairs kvs = foldl (\<lambda>d (k, v). AList.update k v d) [] kvs"

fun schema_call :: "schema \<Rightarrow> 'a pyobj list \<Rightarrow> error + 'a pyobj" where
  "schema_call IdentitySchema values = (case values of [] \<Rightarrow> Inl IndexError | v # _ \<Rightarrow> Inr v)"
| "schema_call (ListSchema ss sz) values =
     (case ListSchema_call schema_call ss sz values of Inl e \<Rightarrow> Inl e
      | Inr vs \<Rightarrow> Inr (PList vs))"
| "schema_call (TupleSchema ss sz) values =
     (case ListSchema_call schema_call ss sz values of Inl e \<Rightarrow> Inl e
      | Inr vs \<Rightarrow> Inr (PTuple vs))"
| "schema_call (DictSchema ss sz ks) values =
     (case ListSchema_call schema_call ss sz values of Inl e \<Rightarrow> Inl e
      | Inr vs \<Rightarrow> Inr (PDict (dict_of_pairs (zip (map KStr ks) vs))))"

section \<open>Flattening\<close>

text \<open>
  The \<open>flatten\<close> class methods. \<open>ListSchema.flatten\<close> is inherited by \<open>TupleSchema\<close>, so it
  takes the class \<open>cls\<close> that it constructs; it calls the global \<open>flatten_to_tuple\<close> on every
  element, which is its second argument here. \<open>DictSchema.flatten\<close> checks the keys, sorts
  them, reads the values in that order and flattens them with \<open>ListSchema.flatten\<close>.
\<close>

definition IdentitySchema_flatten :: "'a pyobj \<Rightarrow> error + ('a pyobj list \<times> schema)" where
  "IdentitySchema_flatten obj = Inr ([obj], IdentitySchema)"

definition ListSchema_flatten ::
  "(schema list \<Rightarrow> nat list \<Rightarrow> schema) \<Rightarrow> ('a pyobj \<Rightarrow> error + ('a pyobj list \<times> schema))
     \<Rightarrow> 'a pyobj list \<Rightarrow> error + ('a pyobj list \<times> schema)" where
  "ListSchema_flatten cls flatten obj =
     (case all_or_raise (map flatten obj) of Inl e \<Rightarrow> Inl e
      | Inr res \<Rightarrow>
          (case Schema_concat (map fst res) of
             (values, sizes') \<Rightarrow> Inr (values, cls (map snd res) sizes')))"

lemma ListSchema_flatten_cong [fundef_cong]:
  assumes "obj = obj'" and "\<And>x. x \<in> set obj' \<Longrightarrow> f x = g x"
  shows "ListSchema_flatten cls f obj = ListSchema_flatten cls g obj'"
proof -
  have h: "map f obj' = map g obj'"
    using assms(2) by simp
  show ?thesis
    by (simp only: ListSchema_flatten_def assms(1) h)
qed

definition getitem :: "('k \<times> 'v) list \<Rightarrow> 'k \<Rightarrow> error + 'v" where
  "getitem d k = (case map_of d k of None \<Rightarrow> Inl KeyError | Some v \<Rightarrow> Inr v)"

definition DictSchema_flatten ::
  "('a pyobj \<Rightarrow> error + ('a pyobj list \<times> schema)) \<Rightarrow> (pykey \<times> 'a pyobj) list
     \<Rightarrow> error + ('a pyobj list \<times> schema)" where
  "DictSchema_flatten flatten obj =
     (if list_ex (\<lambda>k. case k of KStr s \<Rightarrow> False | KInt i \<Rightarrow> True) (map fst obj)
      then Inl KeyError
      else
        let keys' = sort [s. KStr s \<leftarrow> map fst obj] in
        case all_or_raise (map (\<lambda>k. getitem obj (KStr k)) keys') of Inl e \<Rightarrow> Inl e
        | Inr values \<Rightarrow>
            (case ListSchema_flatten ListSchema flatten values of Inl e \<Rightarrow> Inl e
             | Inr (ret, schema) \<Rightarrow> Inr (ret, DictSchema (schemas schema) (sizes schema) keys')))"

lemma all_or_raise_Inr_iff: "all_or_raise rs = Inr vs \<longleftrightarrow> rs = map Inr vs"
proof (induction rs arbitrary: vs)
  case Nil
  then show ?case by auto
next
  case (Cons r rs)
  show ?case
  proof (cases r)
    case (Inl e)
    then show ?thesis by (cases vs) auto
  next
    case (Inr v)
    show ?thesis
    proof (cases "all_or_raise rs")
      case (Inl e)
      then have "rs \<noteq> map Inr us" for us
        using Cons.IH [of us] by auto
      then show ?thesis
        using Inl Inr by (cases vs) auto
    next
      case r: (Inr us)
      then have "rs = map Inr us"
        using Cons.IH by simp
      then show ?thesis
        using r Inr by (cases vs) (auto simp: inj_map_eq_map)
    qed
  qed
qed

lemma getitem_values_subset:
  assumes "all_or_raise (map (\<lambda>k. getitem obj (f k)) ks) = Inr values"
  shows "set values \<subseteq> snd ` set obj"
proof
  fix v assume "v \<in> set values"
  then have "Inr v \<in> set (map (\<lambda>k. getitem obj (f k)) ks)"
    using assms by (auto simp: all_or_raise_Inr_iff)
  then obtain k where "getitem obj (f k) = Inr v" by auto
  then have "map_of obj (f k) = Some v"
    by (auto simp: getitem_def split: option.splits)
  then show "v \<in> snd ` set obj"
    by (force dest: map_of_SomeD)
qed

lemma DictSchema_flatten_cong [fundef_cong]:
  assumes "obj = obj'" and "\<And>v. v \<in> snd ` set obj' \<Longrightarrow> f v = g v"
  shows "DictSchema_flatten f obj = DictSchema_flatten g obj'"
proof -
  have "ListSchema_flatten ListSchema f vs = ListSchema_flatten ListSchema g vs"
    if "set vs \<subseteq> snd ` set obj'" for vs
    using that assms(2) by (intro ListSchema_flatten_cong) auto
  then show ?thesis
    using assms(1) getitem_values_subset [of obj' KStr]
    by (auto simp: DictSchema_flatten_def Let_def split: sum.splits)
qed

text \<open>
  \<open>flatten_to_tuple\<close>: the first entry of the table \<open>schemas\<close> whose class the object is an
  instance of gives the schema class, \<open>IdentitySchema\<close> when there is none. \<open>iter\<close> and \<open>items\<close>
  read the elements of a list or tuple and the items of a mapping; the dispatch calls them on
  nothing else.
\<close>

definition flatten_schemas :: "(pyclass list \<times> schema_class) list" where
  "flatten_schemas = [([Cstr, Cbytes], IdentitySchemaC), ([Clist], ListSchemaC),
     ([Ctuple], TupleSchemaC), ([CMapping], DictSchemaC)]"

definition pick_schema :: "'a pyobj \<Rightarrow> schema_class" where
  "pick_schema obj =
     (case find (\<lambda>(klass, schema). list_ex (isinstance obj) klass) flatten_schemas of
        Some (klass, schema) \<Rightarrow> schema
      | None \<Rightarrow> IdentitySchemaC)"

fun iter :: "'a pyobj \<Rightarrow> 'a pyobj list" where
  "iter (PList xs) = xs"
| "iter (PTuple xs) = xs"
| "iter obj = []"

fun items :: "'a pyobj \<Rightarrow> (pykey \<times> 'a pyobj) list" where
  "items (PDict kvs) = kvs"
| "items obj = []"

function flatten_to_tuple :: "'a pyobj \<Rightarrow> error + ('a pyobj list \<times> schema)" where
  "flatten_to_tuple obj =
     (case pick_schema obj of
        IdentitySchemaC \<Rightarrow> IdentitySchema_flatten obj
      | ListSchemaC \<Rightarrow> ListSchema_flatten ListSchema flatten_to_tuple (iter obj)
      | TupleSchemaC \<Rightarrow> ListSchema_flatten TupleSchema flatten_to_tuple (iter obj)
      | DictSchemaC \<Rightarrow> DictSchema_flatten flatten_to_tuple (items obj))"
  by pat_completeness auto
termination
proof (relation "measure size")
  show "wf (measure size)" by simp
next
  fix obj x :: "'a pyobj"
  assume "x \<in> set (iter obj)"
  then show "(x, obj) \<in> measure size"
    by (cases obj) (auto simp: less_Suc_eq_le size_list_estimation')
next
  fix obj x :: "'a pyobj"
  assume "x \<in> set (iter obj)"
  then show "(x, obj) \<in> measure size"
    by (cases obj) (auto simp: less_Suc_eq_le size_list_estimation')
next
  fix obj x :: "'a pyobj"
  assume "x \<in> snd ` set (items obj)"
  then show "(x, obj) \<in> measure size"
    by (cases obj) (auto simp: less_Suc_eq_le size_list_estimation')
qed

section \<open>Predicates used to state the properties\<close>

text \<open>
  The \<open>str\<close> keys of a mapping, and whether an object has, at any depth, a mapping with a key
  that is not a \<open>str\<close>. \<open>sorted_values\<close> are the values of a mapping in the order of its
  sorted keys, the order in which \<open>DictSchema.flatten\<close> reads them.
\<close>

definition str_keys :: "(pykey \<times> 'v) list \<Rightarrow> string list" where
  "str_keys kvs = [s. KStr s \<leftarrow> map fst kvs]"

fun has_nonstr_key :: "'a pyobj \<Rightarrow> bool" where
  "has_nonstr_key (PList xs) = list_ex has_nonstr_key xs"
| "has_nonstr_key (PTuple xs) = list_ex has_nonstr_key xs"
| "has_nonstr_key (PDict kvs) =
     list_ex (\<lambda>kv. (case fst kv of KStr s \<Rightarrow> False | KInt i \<Rightarrow> True) \<or> has_nonstr_key (snd kv)) kvs"
| "has_nonstr_key obj = False"

definition sorted_values :: "(pykey \<times> 'v) list \<Rightarrow> 'v list" where
  "sorted_values kvs = map (\<lambda>k. the (map_of kvs (KStr k))) (sort (str_keys kvs))"

text \<open>
  The leaves of an object as the specification describes the flat result: list and tuple
  elements in element order, mapping values in the order of the sorted keys (the items sorted by
  key). A leaf is an object that is not a list, a tuple or a mapping.
\<close>

definition str_items :: "(pykey \<times> 'v) list \<Rightarrow> (string \<times> 'v) list" where
  "str_items kvs = [(s, v). (KStr s, v) \<leftarrow> kvs]"

lemma str_items_mem: "(s, v) \<in> set (str_items kvs) \<longleftrightarrow> (KStr s, v) \<in> set kvs"
  by (induction kvs) (auto simp: str_items_def split: pykey.splits)

function leaves_spec :: "'a pyobj \<Rightarrow> 'a pyobj list" where
  "leaves_spec (PList xs) = concat (map leaves_spec xs)"
| "leaves_spec (PTuple xs) = concat (map leaves_spec xs)"
| "leaves_spec (PDict kvs) = concat (map (\<lambda>(k, v). leaves_spec v) (sort_key fst (str_items kvs)))"
| "leaves_spec (PStr s) = [PStr s]"
| "leaves_spec (PBytes b) = [PBytes b]"
| "leaves_spec (PTensor t) = [PTensor t]"
| "leaves_spec (POther x) = [POther x]"
  by pat_completeness auto
termination
proof (relation "measure size")
  show "wf (measure size)" by simp
next
  fix xs :: "'a pyobj list" and x
  assume "x \<in> set xs"
  then show "(x, PList xs) \<in> measure size"
    by (simp add: less_Suc_eq_le size_list_estimation')
next
  fix xs :: "'a pyobj list" and x
  assume "x \<in> set xs"
  then show "(x, PTuple xs) \<in> measure size"
    by (simp add: less_Suc_eq_le size_list_estimation')
next
  fix kvs :: "(pykey \<times> 'a pyobj) list" and x :: "string \<times> 'a pyobj" and k v
  assume "x \<in> set (sort_key fst (str_items kvs))" and "(k, v) = x"
  then have "(k, v) \<in> set (str_items kvs)"
    by simp
  then have "(KStr k, v) \<in> set kvs"
    by (simp only: str_items_mem)
  then have "size v \<le> size_list (size_prod (\<lambda>x. 0) size) kvs"
    by (rule size_list_estimation') simp
  then show "(v, PDict kvs) \<in> measure size"
    by simp
qed

definition is_leaf :: "'a pyobj \<Rightarrow> bool" where
  "is_leaf obj = (\<not> isinstance obj Clist \<and> \<not> isinstance obj Ctuple \<and> \<not> isinstance obj CMapping)"

text \<open>
  The size invariant of a schema \<open>s\<close> returned with the flattened tuple \<open>res\<close> for an object:
  \<open>schemas\<close> and \<open>sizes\<close> have one entry for each element of the object (for a mapping, its
  values by sorted key), the sum of \<open>sizes\<close> is the length of \<open>res\<close>, the entries for an element
  are the schema and the length of the tuple that \<open>flatten_to_tuple\<close> returns for it, and the
  invariant holds of that element, its tuple and its schema in turn.
\<close>

fun elements :: "'a pyobj \<Rightarrow> 'a pyobj list" where
  "elements (PList xs) = xs"
| "elements (PTuple xs) = xs"
| "elements (PDict kvs) = sorted_values kvs"
| "elements obj = []"

definition elems_inv ::
  "('a pyobj \<Rightarrow> 'a pyobj list \<Rightarrow> schema \<Rightarrow> bool) \<Rightarrow> 'a pyobj list \<Rightarrow> schema list \<Rightarrow> nat list
     \<Rightarrow> 'a pyobj list \<Rightarrow> bool" where
  "elems_inv P es ss sz res =
     (length ss = length sz \<and> sum_list sz = length res \<and> length es = length ss \<and>
      list_all (\<lambda>(x, m, n). case flatten_to_tuple x of Inl e \<Rightarrow> False
                  | Inr (r, m') \<Rightarrow> m' = m \<and> n = length r \<and> P x r m)
        (zip es (zip ss sz)))"

lemma elems_inv_cong [fundef_cong]:
  assumes "es = es'" "ss = ss'" "sz = sz'" "res = res'"
    and "\<And>x r m. m \<in> set ss' \<Longrightarrow> P x r m = P' x r m"
  shows "elems_inv P es ss sz res = elems_inv P' es' ss' sz' res'"
proof -
  have "(case p of (x, m, n) \<Rightarrow> case flatten_to_tuple x of Inl e \<Rightarrow> False
                  | Inr (r, m') \<Rightarrow> m' = m \<and> n = length r \<and> P x r m)
      = (case p of (x, m, n) \<Rightarrow> case flatten_to_tuple x of Inl e \<Rightarrow> False
                  | Inr (r, m') \<Rightarrow> m' = m \<and> n = length r \<and> P' x r m)"
    if "p \<in> set (zip es' (zip ss' sz'))" for p
  proof -
    obtain x m n where p: "p = (x, m, n)" by (cases p)
    then have "(m, n) \<in> set (zip ss' sz')"
      using that by (auto dest: set_zip_rightD)
    then have "m \<in> set ss'"
      by (rule set_zip_leftD)
    then show ?thesis
      using assms(5) p by (auto split: sum.splits)
  qed
  then show ?thesis
    unfolding elems_inv_def assms(1-4) list_all_iff by blast
qed

fun size_inv :: "'a pyobj \<Rightarrow> 'a pyobj list \<Rightarrow> schema \<Rightarrow> bool" where
  "size_inv obj res IdentitySchema = True"
| "size_inv obj res (ListSchema ss sz) = elems_inv size_inv (elements obj) ss sz res"
| "size_inv obj res (TupleSchema ss sz) = elems_inv size_inv (elements obj) ss sz res"
| "size_inv obj res (DictSchema ss sz ks) = elems_inv size_inv (elements obj) ss sz res"

section \<open>The tracing adapter\<close>

text \<open>
  A module is reduced to what the code below reads and writes: its \<open>training\<close> flag, and
  for a \<open>DataParallel\<close> or \<open>DistributedDataParallel\<close> wrapper the flag of the module it wraps.
  \<open>train\<close> is \<open>torch.nn.Module.train\<close>: it sets the flag of the module and of its children;
  \<open>eval()\<close> is \<open>train False\<close>. The constructor's \<open>inference_func\<close> is only stored, and is left out.
\<close>

datatype nnmodule = Module (training: bool) | DataParallel (training: bool) (module_training: bool)

fun train :: "bool \<Rightarrow> nnmodule \<Rightarrow> nnmodule" where
  "train mode (Module t) = Module mode"
| "train mode (DataParallel t ti) = DataParallel mode mode"

record 'a TracingAdapter =
  model :: nnmodule
  inputs :: "'a pyobj"
  allow_non_tensor :: bool
  flattened_inputs :: "'a pyobj list"
  inputs_schema :: "schema option"
  outputs_schema :: "schema option"
  adapter_training :: bool

definition unwrap_parallel :: "nnmodule \<Rightarrow> nnmodule" where
  "unwrap_parallel m = (case m of DataParallel t ti \<Rightarrow> Module ti | Module t \<Rightarrow> m)"

definition as_tuple :: "'a pyobj \<Rightarrow> 'a pyobj" where
  "as_tuple obj = (if \<not> isinstance obj Ctuple then PTuple [obj] else obj)"

definition TracingAdapter_init :: "nnmodule \<Rightarrow> 'a pyobj \<Rightarrow> bool \<Rightarrow> error + 'a TracingAdapter" where
  "TracingAdapter_init model' inputs' allow_non_tensor' =
     (case flatten_to_tuple (as_tuple inputs') of
        Inl e \<Rightarrow> Inl e
      | Inr (flat, sch) \<Rightarrow>
          let self = \<lparr>model = unwrap_parallel model', inputs = as_tuple inputs',
                       allow_non_tensor = allow_non_tensor', flattened_inputs = flat,
                       inputs_schema = Some sch, outputs_schema = None, adapter_training = True\<rparr>
          in
            if list_all (\<lambda>x. isinstance x CTensor) flat then Inr self
            else if allow_non_tensor' then
              Inr (self\<lparr>flattened_inputs := filter (\<lambda>x. isinstance x CTensor) flat,
                         inputs_schema := None\<rparr>)
            else
              (case find (\<lambda>x. \<not> isinstance x CTensor) flat of
                 Some x \<Rightarrow> Inl ValueError
               | None \<Rightarrow> Inr self))"

section \<open>Operator counting\<close>

text \<open>
  The calls into fvcore (\<open>by_operator\<close>, \<open>flop_count\<close>, \<open>activation_count\<close>) are parameters:
  each returns its outcome and the object it was given, as it left it. A function that takes a
  model returns, beside its outcome, the state of that model after the call, also when it raises.
\<close>

text \<open>
  \<open>rewrap m inner\<close> is the model \<open>m\<close> once the module that the adapter holds (the model
  itself, or the module a parallel wrapper wraps) has become \<open>inner\<close>.
\<close>

fun rewrap :: "nnmodule \<Rightarrow> nnmodule \<Rightarrow> nnmodule" where
  "rewrap (Module t) inner = inner"
| "rewrap (DataParallel t ti) inner = DataParallel t (training inner)"

definition IGNORED_OPS :: "string list" where
  "IGNORED_OPS = [''aten::add'', ''aten::add_'', ''aten::argmax'', ''aten::argsort'',
     ''aten::batch_norm'', ''aten::constant_pad_nd'', ''aten::div'', ''aten::div_'',
     ''aten::exp'', ''aten::log2'', ''aten::max_pool2d'', ''aten::meshgrid'', ''aten::mul'',
     ''aten::mul_'', ''aten::neg'', ''aten::nonzero_numpy'', ''aten::reciprocal'',
     ''aten::repeat_interleave'', ''aten::rsub'', ''aten::sigmoid'', ''aten::sigmoid_'',
     ''aten::softmax'', ''aten::sort'', ''aten::sqrt'', ''aten::sub'', ''torchvision::nms'']"

record ('a, 'h) FlopCountAnalysis =
  wrapper :: "'a TracingAdapter"
  analysis_inputs :: "'a pyobj list"
  op_handles :: "(string \<times> 'h option) list"

definition FlopCountAnalysis_init ::
  "nnmodule \<Rightarrow> 'a pyobj \<Rightarrow> error + ('a, 'h) FlopCountAnalysis" where
  "FlopCountAnalysis_init model' inputs' =
     (case TracingAdapter_init model' inputs' True of
        Inl e \<Rightarrow> Inl e
      | Inr w \<Rightarrow>
          Inr \<lparr>wrapper = w, analysis_inputs = flattened_inputs w,
               op_handles = map (\<lambda>k. (k, None)) IGNORED_OPS\<rparr>)"

definition flop_count_operators ::
  "(('a, 'h) FlopCountAnalysis \<Rightarrow> (error + (string \<times> 'v) list) \<times> ('a, 'h) FlopCountAnalysis)
     \<Rightarrow> ('v \<Rightarrow> 'v) \<Rightarrow> nnmodule \<Rightarrow> 'a pyobj \<Rightarrow> (error + (string \<times> 'v) list) \<times> nnmodule" where
  "flop_count_operators by_operator div_1e9 model' inputs' =
     (let old_train = training model';
          evaled = train False model'
      in case FlopCountAnalysis_init evaled inputs' of
           Inl e \<Rightarrow> (Inl e, evaled)
         | Inr analysis \<Rightarrow>
             (case by_operator analysis of
                (Inl e, analysis') \<Rightarrow> (Inl e, rewrap evaled (model (wrapper analysis')))
              | (Inr ret, analysis') \<Rightarrow>
                  (Inr (map (\<lambda>(k, v). (k, div_1e9 v)) ret),
                   train old_train (rewrap evaled (model (wrapper analysis'))))))"

text \<open>
  \<open>_wrapper_count_operators\<close> takes a list of dicts, as its documentation says. Its keyword
  arguments are \<open>supported_ops\<close> (absent, or a dict from operator names to handles) and the
  rest; the handle installed for an ignored operator returns an empty count. What fvcore
  returns is a counter, or a tuple whose first component is the counter.
\<close>

definition FLOPS_MODE :: string where "FLOPS_MODE = ''flops''"
definition ACTIVATIONS_MODE :: string where "ACTIVATIONS_MODE = ''activations''"

datatype 'h handle = EmptyCount | UserHandle 'h

record ('h, 'k) kwargs =
  supported_ops :: "(string \<times> 'h handle) list option"
  other_kwargs :: 'k

datatype 'c fvcore_result = Counts 'c | CountsAndSkipped 'c 'c

definition wrapper_count_operators ::
  "('a TracingAdapter \<Rightarrow> 'a pyobj list \<Rightarrow> ('h, 'k) kwargs \<Rightarrow> (error + 'c fvcore_result) \<times> 'a TracingAdapter)
   \<Rightarrow> ('a TracingAdapter \<Rightarrow> 'a pyobj list \<Rightarrow> ('h, 'k) kwargs \<Rightarrow> (error + 'c fvcore_result) \<times> 'a TracingAdapter)
   \<Rightarrow> nnmodule \<Rightarrow> (pykey \<times> 'a pyobj) list list \<Rightarrow> string \<Rightarrow> ('h, 'k) kwargs
   \<Rightarrow> (error + 'c) \<times> nnmodule" where
  "wrapper_count_operators flop_count activation_count model' inputs' mode kwargs' =
     (let ignored = map (\<lambda>k. (k, EmptyCount)) IGNORED_OPS;
          given = (case supported_ops kwargs' of None \<Rightarrow> [] | Some d \<Rightarrow> d);
          kwargs'' = kwargs'\<lparr>supported_ops := Some (AList.updates (map fst given) (map snd given) ignored)\<rparr>
      in case inputs' of
           [d] \<Rightarrow>
             (case getitem d (KStr ''image'') of
                Inl e \<Rightarrow> (Inl e, model')
              | Inr tensor_input \<Rightarrow>
                  let inputs'' = PList [PDict [(KStr ''image'', tensor_input)]];
                      old_train = training model';
                      inner = unwrap_parallel model'
                  in case TracingAdapter_init inner inputs'' False of
                       Inl e \<Rightarrow> (Inl e, model')
                     | Inr w \<Rightarrow>
                         let w' = w\<lparr>adapter_training := False, model := train False (model w)\<rparr>;
                             finish = (\<lambda>(outcome, w'').
                               case outcome of
                                 Inl e \<Rightarrow> (Inl e, rewrap model' (model w''))
                               | Inr ret \<Rightarrow>
                                   (Inr (case ret of Counts c \<Rightarrow> c | CountsAndSkipped c sk \<Rightarrow> c),
                                    rewrap model' (train old_train (model w''))))
                         in
                           if mode = FLOPS_MODE then finish (flop_count w' [tensor_input] kwargs'')
                           else if mode = ACTIVATIONS_MODE then
                             finish (activation_count w' [tensor_input] kwargs'')
                           else (Inl NotImplementedError, rewrap model' (model w')))
         | _ \<Rightarrow> (Inl AssertionError, model'))"

definition activation_count_operators ::
  "('a TracingAdapter \<Rightarrow> 'a pyobj list \<Rightarrow> ('h, 'k) kwargs \<Rightarrow> (error + 'c fvcore_result) \<times> 'a TracingAdapter)
   \<Rightarrow> ('a TracingAdapter \<Rightarrow> 'a pyobj list \<Rightarrow> ('h, 'k) kwargs \<Rightarrow> (error + 'c fvcore_result) \<times> 'a TracingAdapter)
   \<Rightarrow> nnmodule \<Rightarrow> (pykey \<times> 'a pyobj) list list \<Rightarrow> ('h, 'k) kwargs
   \<Rightarrow> (error + 'c) \<times> nnmodule" where
  "activation_count_operators flop_count activation_count model' inputs' kwargs' =
     wrapper_count_operators flop_count activation_count model' inputs' ACTIVATIONS_MODE kwargs'"

section \<open>The analysis script\<close>

text \<open>
  \<open>analysis.py\<close>: the four functions a task name can select are named by \<open>analysis_fn\<close>.
  What a call of one of them does is a parameter \<open>call\<close>: from the function, the configuration
  it is given and the state of the world, the exception it raised (if any) and the state it
  left. \<open>run_tasks\<close> is the loop over \<open>args.tasks\<close>, which an exception ends. \<open>parse_tasks\<close> is
  what argparse does with \<open>choices\<close>, \<open>nargs="+"\<close> and \<open>required=True\<close>. \<open>main\<close> is the script:
  it parses, loads the configuration with \<open>setup\<close>, assigns \<open>args.ckpt\<close> to
  \<open>cfg.train.init_checkpoint\<close> and runs the tasks.
\<close>

datatype analysis_fn = do_flop | do_activation | do_parameter | do_structure

definition task_choices :: "string list" where
  "task_choices = [''flop'', ''activation'', ''parameter'', ''structure'']"

definition parse_tasks :: "string list \<Rightarrow> error + string list" where
  "parse_tasks given =
     (if given = [] \<or> list_ex (\<lambda>t. t \<notin> set task_choices) given then Inl SystemExit
      else Inr given)"

definition task_table :: "(string \<times> analysis_fn) list" where
  "task_table = [(''flop'', do_flop), (''activation'', do_activation),
     (''parameter'', do_parameter), (''structure'', do_structure)]"

record 'r cfg =
  train_init_checkpoint :: "string option"
  cfg_rest :: 'r

record args =
  config_file :: string
  opts :: "string list"
  ckpt :: "string option"
  tasks :: "string list"
  num_inputs :: int
  eval_only :: bool
  num_gpus :: int

fun run_tasks ::
  "(analysis_fn \<Rightarrow> 'c \<Rightarrow> 'w \<Rightarrow> error option \<times> 'w) \<Rightarrow> 'c \<Rightarrow> string list \<Rightarrow> 'w
     \<Rightarrow> error option \<times> 'w" where
  "run_tasks call c [] w = (None, w)"
| "run_tasks call c (task # rest) w =
     (case map_of task_table task of
        None \<Rightarrow> (Some KeyError, w)
      | Some f \<Rightarrow>
          (case call f c w of
             (Some e, w') \<Rightarrow> (Some e, w')
           | (None, w') \<Rightarrow> run_tasks call c rest w'))"

definition main ::
  "(args \<Rightarrow> error + 'r cfg) \<Rightarrow> (analysis_fn \<Rightarrow> 'r cfg \<Rightarrow> 'w \<Rightarrow> error option \<times> 'w) \<Rightarrow> args \<Rightarrow> 'w
     \<Rightarrow> error option \<times> 'w" where
  "main setup call a w =
     (case parse_tasks (tasks a) of
        Inl e \<Rightarrow> (Some e, w)
      | Inr ts \<Rightarrow>
          if eval_only a then (Some AssertionError, w)
          else if num_gpus a \<noteq> 1 then (Some AssertionError, w)
          else
            (case setup a of
               Inl e \<Rightarrow> (Some e, w)
             | Inr c \<Rightarrow> run_tasks call (c\<lparr>train_init_checkpoint := ckpt a\<rparr>) ts w))"

text \<open>The function the specification names for each task.\<close>

definition handler_of :: "string \<Rightarrow> analysis_fn" where
  "handler_of t =
     (if t = ''flop'' then do_flop
      else if t = ''activation'' then do_activation
      else if t = ''parameter'' then do_parameter
      else do_structure)"

text \<open>
  Invoking a list of functions in order, each with the same configuration, until one raises;
  and a \<open>call\<close> that does nothing but record, in the state, the function invoked and the
  configuration it was given.
\<close>

fun invoke_in_order ::
  "(analysis_fn \<Rightarrow> 'c \<Rightarrow> 'w \<Rightarrow> error option \<times> 'w) \<Rightarrow> 'c \<Rightarrow> analysis_fn list \<Rightarrow> 'w
     \<Rightarrow> error option \<times> 'w" where
  "invoke_in_order call c [] w = (None, w)"
| "invoke_in_order call c (f # fs) w =
     (case call f c w of
        (Some e, w') \<Rightarrow> (Some e, w')
      | (None, w') \<Rightarrow> invoke_in_order call c fs w')"

definition record_call ::
  "analysis_fn \<Rightarrow> 'c \<Rightarrow> (analysis_fn \<times> 'c) list \<Rightarrow> error option \<times> (analysis_fn \<times> 'c) list" where
  "record_call f c w = (None, w @ [(f, c)])"

section \<open>The model configuration\<close>

text \<open>
  \<open>resnet18_tusimple.py\<close> as data: a lazy call \<open>L(target)(**kwargs)\<close> is \<open>VLazy\<close>; a float
  literal is \<open>VFloat m e\<close>, the decimal \<open>m * 10^e\<close>.
\<close>

datatype cfgval = VStr string | VBool bool | VInt int | VFloat int int
  | VList "cfgval list" | VDict "(string \<times> cfgval) list"
  | VLazy string "(string \<times> cfgval) list"

definition param_config :: cfgval where
  "param_config = VDict
     [(''iou_loss_weight'', VFloat 2 0),
      (''cls_loss_weight'', VFloat 6 0),
      (''xyt_loss_weight'', VFloat 5 (- 1)),
      (''seg_loss_weight'', VFloat 1 0),
      (''num_points'', VInt 72),
      (''max_lanes'', VInt 5),
      (''sample_y'', VList (map (\<lambda>i. VInt (710 - 10 * int i)) [0..<56])),
      (''test_parameters'', VDict [(''conf_threshold'', VFloat 4 (- 1)), (''nms_thres'', VInt 50),
         (''nms_topk'', VInt 5)]),
      (''ori_img_w'', VInt 1280),
      (''ori_img_h'', VInt 720),
      (''img_w'', VInt 800),
      (''img_h'', VInt 320),
      (''cut_height'', VInt 160),
      (''img_norm'', VDict
         [(''mean'', VList [VFloat 103939 (- 3), VFloat 116779 (- 3), VFloat 12368 (- 2)]),
          (''std'', VList [VFloat 1 0, VFloat 1 0, VFloat 1 0])]),
      (''data_root'', VStr ''/home/dataset/tusimple''),
      (''ignore_label'', VInt 255),
      (''bg_weight'', VFloat 4 (- 1)),
      (''featuremap_out_channel'', VInt 192),
      (''num_classes'', VInt (6 + 1))]"

definition resnet18_tusimple_model :: cfgval where
  "resnet18_tusimple_model = VLazy ''GSENet''
     [(''backbone'', VLazy ''ResNetWrapper''
         [(''resnet'', VStr ''resnet18''),
          (''pretrained'', VBool True),
          (''replace_stride_with_dilation'', VList [VBool False, VBool False, VBool False]),
          (''out_conv'', VBool False)]),
      (''neck'', VLazy ''FPN''
         [(''in_channels'', VList [VInt 128, VInt 256, VInt 512]),
          (''out_channels'', VInt 64),
          (''num_outs'', VInt 3),
          (''attention'', VBool False)]),
      (''head'', VLazy ''GSEHead''
         [(''num_priors'', VInt 192),
          (''refine_layers'', VInt 3),
          (''fc_hidden_dim'', VInt 64),
          (''sample_points'', VInt 36),
          (''cfg'', param_config)])]"

fun lazy_target :: "cfgval \<Rightarrow> string option" where
  "lazy_target (VLazy t kw) = Some t"
| "lazy_target v = None"

fun lazy_kwargs :: "cfgval \<Rightarrow> (string \<times> cfgval) list" where
  "lazy_kwargs (VLazy t kw) = kw"
| "lazy_kwargs v = []"

section \<open>Basic facts about the embedding\<close>

declare flatten_to_tuple.simps [simp del]

lemma pick_schema_simps [simp]:
  "pick_schema (PStr s) = IdentitySchemaC"
  "pick_schema (PBytes s) = IdentitySchemaC"
  "pick_schema (PTensor t) = IdentitySchemaC"
  "pick_schema (POther x) = IdentitySchemaC"
  "pick_schema (PList xs) = ListSchemaC"
  "pick_schema (PTuple xs) = TupleSchemaC"
  "pick_schema (PDict kvs) = DictSchemaC"
  by (simp_all add: pick_schema_def flatten_schemas_def)

lemma flatten_to_tuple_PList:
  "flatten_to_tuple (PList xs) = ListSchema_flatten ListSchema flatten_to_tuple xs"
  by (simp add: flatten_to_tuple.simps [of "PList xs"])

lemma flatten_to_tuple_PTuple:
  "flatten_to_tuple (PTuple xs) = ListSchema_flatten TupleSchema flatten_to_tuple xs"
  by (simp add: flatten_to_tuple.simps [of "PTuple xs"])

lemma flatten_to_tuple_PDict:
  "flatten_to_tuple (PDict kvs) = DictSchema_flatten flatten_to_tuple kvs"
  by (simp add: flatten_to_tuple.simps [of "PDict kvs"])

lemma flatten_to_tuple_leaf:
  "pick_schema obj = IdentitySchemaC \<Longrightarrow> flatten_to_tuple obj = Inr ([obj], IdentitySchema)"
  by (simp add: flatten_to_tuple.simps [of obj] IdentitySchema_flatten_def)

lemma Schema_concat_foldl:
  "foldl (\<lambda>(ret, sizes') v. (ret @ v, sizes' @ [length v])) (a, b) vs
     = (a @ concat vs, b @ map length vs)"
  by (induction vs arbitrary: a b) auto

lemma Schema_concat_eq: "Schema_concat vs = (concat vs, map length vs)"
  by (simp add: Schema_concat_def Schema_concat_foldl)

lemma all_or_raise_map_Inr [simp]: "all_or_raise (map Inr vs) = Inr vs"
  by (simp add: all_or_raise_Inr_iff)

lemma ListSchema_flatten_Inr_iff:
  "ListSchema_flatten cls f xs = Inr (res, s) \<longleftrightarrow>
     (\<exists>rs. map f xs = map Inr rs \<and> res = concat (map fst rs)
        \<and> s = cls (map snd rs) (map length (map fst rs)))"
  by (auto simp: ListSchema_flatten_def Schema_concat_eq all_or_raise_Inr_iff split: sum.splits)

lemma slice_append: "slice (A @ B @ C) (length A) (length A + length B) = B"
  by (simp add: slice_def)

lemma slice_concat:
  assumes "k < length vs"
  shows "slice (concat vs) (sum_list (take k (map length vs))) (sum_list (take (Suc k) (map length vs)))
           = vs ! k"
proof -
  have split: "vs = take k vs @ vs ! k # drop (Suc k) vs"
    using assms by (rule id_take_nth_drop)
  have a: "sum_list (take k (map length vs)) = length (concat (take k vs))"
    by (simp add: length_concat take_map)
  have b: "sum_list (take (Suc k) (map length vs)) = length (concat (take k vs)) + length (vs ! k)"
    using assms by (simp add: length_concat take_map take_Suc_conv_app_nth)
  have c: "concat vs = concat (take k vs) @ vs ! k @ concat (drop (Suc k) vs)"
    by (subst split) simp
  show ?thesis
    by (simp only: a b c slice_append)
qed

lemma Schema_split_concat: "Schema_split (concat vs) (map length vs) = Inr vs"
proof -
  have "map (\<lambda>k. slice (concat vs) (sum_list (take k (map length vs)))
                     (sum_list (take (Suc k) (map length vs)))) [0..<length vs] = vs"
    by (rule nth_equalityI) (simp_all add: slice_concat del: take_map)
  then show ?thesis
    by (simp add: Schema_split_def length_concat)
qed

lemma struct_eq_PList: "struct_eq (PList os) (PList xs) \<longleftrightarrow> list_all2 struct_eq os xs"
  by (auto simp: list_all2_iff list_all_iff)

lemma struct_eq_PTuple: "struct_eq (PTuple os) (PTuple xs) \<longleftrightarrow> list_all2 struct_eq os xs"
  by (auto simp: list_all2_iff list_all_iff)

lemma ListSchema_call_rebuild:
  assumes "list_all2 (\<lambda>r ob. call (snd r) (fst r) = Inr ob) rs os"
  shows "ListSchema_call call (map snd rs) (map length (map fst rs)) (concat (map fst rs)) = Inr os"
proof -
  have "map (\<lambda>(m, v). call m v) (zip (map snd rs) (map fst rs)) = map (\<lambda>r. call (snd r) (fst r)) rs"
    by (simp add: zip_map_map zip_same_conv_map)
  also have "\<dots> = map Inr os"
    using assms by (induction rs os rule: list_all2_induct) auto
  finally have calls: "map (\<lambda>(m, v). call m v) (zip (map snd rs) (map fst rs)) = map Inr os" .
  have sp: "Schema_split (concat (map fst rs)) (map length (map fst rs)) = Inr (map fst rs)"
    by (rule Schema_split_concat)
  show ?thesis
    unfolding ListSchema_call_def sp using calls by simp
qed

lemma rebuild_elements:
  assumes "map f xs = map Inr rs"
    and "\<And>x res s. x \<in> set xs \<Longrightarrow> f x = Inr (res, s) \<Longrightarrow> \<exists>ob. call s res = Inr ob \<and> R ob x"
  shows "\<exists>os. list_all2 (\<lambda>r ob. call (snd r) (fst r) = Inr ob) rs os \<and> list_all2 R os xs"
  using assms
proof (induction xs arbitrary: rs)
  case Nil
  then show ?case by simp
next
  case (Cons x xs)
  from Cons.prems(1) obtain r rs' where rs: "rs = r # rs'" and r: "f x = Inr r"
    and rest: "map f xs = map Inr rs'"
    by (cases rs) auto
  from Cons.IH [OF rest] Cons.prems(2) obtain os
    where os: "list_all2 (\<lambda>r ob. call (snd r) (fst r) = Inr ob) rs' os" "list_all2 R os xs"
    by auto
  from Cons.prems(2) [of x "fst r" "snd r"] r obtain ob
    where ob: "call (snd r) (fst r) = Inr ob" "R ob x"
    by auto
  show ?case
    using os ob rs by (intro exI [of _ "ob # os"]) simp
qed

lemma update_fresh: "k \<notin> fst ` set d \<Longrightarrow> AList.update k v d = d @ [(k, v)]"
  by (induction d) auto

lemma dict_of_pairs_foldl:
  "distinct (map fst (d @ ps)) \<Longrightarrow> foldl (\<lambda>d (k, v). AList.update k v d) d ps = d @ ps"
proof (induction ps arbitrary: d)
  case Nil
  then show ?case by simp
next
  case (Cons p ps)
  obtain k v where p: "p = (k, v)" by (cases p)
  have fresh: "k \<notin> fst ` set d"
    using Cons.prems p by auto
  have "distinct (map fst ((d @ [(k, v)]) @ ps))"
    using Cons.prems p by simp
  from Cons.IH [OF this] show ?case
    using p fresh by (simp add: update_fresh)
qed

lemma dict_of_pairs_distinct: "distinct (map fst ps) \<Longrightarrow> dict_of_pairs ps = ps"
  using dict_of_pairs_foldl [of "[]" ps] by (simp add: dict_of_pairs_def)

lemma map_KStr_str_keys:
  "\<not> list_ex (\<lambda>k. case k of KStr s \<Rightarrow> False | KInt i \<Rightarrow> True) (map fst kvs)
     \<Longrightarrow> map KStr (str_keys kvs) = map fst kvs"
  by (induction kvs) (auto simp: str_keys_def split: pykey.splits)

lemma DictSchema_flatten_unfold:
  "DictSchema_flatten f kvs =
     (if list_ex (\<lambda>k. case k of KStr s \<Rightarrow> False | KInt i \<Rightarrow> True) (map fst kvs)
      then Inl KeyError
      else
        case all_or_raise (map (\<lambda>k. getitem kvs (KStr k)) (sort (str_keys kvs))) of
          Inl e \<Rightarrow> Inl e
        | Inr vals \<Rightarrow>
            (case ListSchema_flatten ListSchema f vals of Inl e \<Rightarrow> Inl e
             | Inr (ret, schema) \<Rightarrow>
                 Inr (ret, DictSchema (schemas schema) (sizes schema) (sort (str_keys kvs)))))"
  by (simp only: DictSchema_flatten_def str_keys_def Let_def)

lemma DictSchema_flatten_Inr_iff:
  "DictSchema_flatten f kvs = Inr (res, s) \<longleftrightarrow>
     \<not> list_ex (\<lambda>k. case k of KStr s \<Rightarrow> False | KInt i \<Rightarrow> True) (map fst kvs) \<and>
     (\<exists>vals rs. map (\<lambda>k. getitem kvs (KStr k)) (sort (str_keys kvs)) = map Inr vals
        \<and> map f vals = map Inr rs \<and> res = concat (map fst rs)
        \<and> s = DictSchema (map snd rs) (map length (map fst rs)) (sort (str_keys kvs)))"
proof (cases "list_ex (\<lambda>k. case k of KStr s \<Rightarrow> False | KInt i \<Rightarrow> True) (map fst kvs)")
  case True
  then show ?thesis
    by (simp add: DictSchema_flatten_def)
next
  case False
  show ?thesis
  proof (cases "all_or_raise (map (\<lambda>k. getitem kvs (KStr k)) (sort (str_keys kvs)))")
    case (Inl e)
    then have "map (\<lambda>k. getitem kvs (KStr k)) (sort (str_keys kvs)) \<noteq> map Inr vals" for vals
      by (auto simp flip: all_or_raise_Inr_iff)
    then show ?thesis
      using False Inl by (simp add: DictSchema_flatten_unfold)
  next
    case (Inr vals)
    then have vals: "map (\<lambda>k. getitem kvs (KStr k)) (sort (str_keys kvs)) = map Inr vals"
      by (simp add: all_or_raise_Inr_iff)
    have uniq: "vals' = vals"
      if "map (\<lambda>k. getitem kvs (KStr k)) (sort (str_keys kvs)) = map Inr vals'" for vals'
      using that vals by (simp add: inj_map_eq_map)
    have unf: "DictSchema_flatten f kvs =
        (case ListSchema_flatten ListSchema f vals of Inl e \<Rightarrow> Inl e
         | Inr (ret, schema) \<Rightarrow>
             Inr (ret, DictSchema (schemas schema) (sizes schema) (sort (str_keys kvs))))"
      using False Inr by (simp add: DictSchema_flatten_unfold)
    show ?thesis
    proof
      assume ok: "DictSchema_flatten f kvs = Inr (res, s)"
      then obtain schema where ls: "ListSchema_flatten ListSchema f vals = Inr (res, schema)"
        and s: "s = DictSchema (schemas schema) (sizes schema) (sort (str_keys kvs))"
        unfolding unf by (auto split: sum.splits)
      from ls obtain rs where rs: "map f vals = map Inr rs" "res = concat (map fst rs)"
        "schema = ListSchema (map snd rs) (map length (map fst rs))"
        unfolding ListSchema_flatten_Inr_iff by blast
      have "s = DictSchema (map snd rs) (map length (map fst rs)) (sort (str_keys kvs))"
        unfolding s rs(3) by simp
      with False vals rs(1,2)
      show "\<not> list_ex (\<lambda>k. case k of KStr s \<Rightarrow> False | KInt i \<Rightarrow> True) (map fst kvs) \<and>
        (\<exists>vals rs. map (\<lambda>k. getitem kvs (KStr k)) (sort (str_keys kvs)) = map Inr vals
          \<and> map f vals = map Inr rs \<and> res = concat (map fst rs)
          \<and> s = DictSchema (map snd rs) (map length (map fst rs)) (sort (str_keys kvs)))"
        by blast
    next
      assume "\<not> list_ex (\<lambda>k. case k of KStr s \<Rightarrow> False | KInt i \<Rightarrow> True) (map fst kvs) \<and>
        (\<exists>vals rs. map (\<lambda>k. getitem kvs (KStr k)) (sort (str_keys kvs)) = map Inr vals
          \<and> map f vals = map Inr rs \<and> res = concat (map fst rs)
          \<and> s = DictSchema (map snd rs) (map length (map fst rs)) (sort (str_keys kvs)))"
      then obtain vals' rs where
        v': "map (\<lambda>k. getitem kvs (KStr k)) (sort (str_keys kvs)) = map Inr vals'"
        and rs: "map f vals' = map Inr rs" "res = concat (map fst rs)"
        "s = DictSchema (map snd rs) (map length (map fst rs)) (sort (str_keys kvs))"
        by blast
      have eq: "vals' = vals" using uniq [OF v'] .
      have "ListSchema_flatten ListSchema f vals =
          Inr (res, ListSchema (map snd rs) (map length (map fst rs)))"
        unfolding ListSchema_flatten_Inr_iff using rs(1,2) eq by blast
      then show "DictSchema_flatten f kvs = Inr (res, s)"
        unfolding unf rs(3) by simp
    qed
  qed
qed

lemma getitem_values:
  assumes "map (\<lambda>k. getitem kvs (f k)) ks = map Inr vals"
  shows "list_all2 (\<lambda>k v. map_of kvs (f k) = Some v) ks vals"
proof -
  have "length ks = length vals"
    using assms by (metis length_map)
  moreover have "map_of kvs (f (ks ! i)) = Some (vals ! i)" if "i < length ks" for i
  proof -
    have "map (\<lambda>k. getitem kvs (f k)) ks ! i = map Inr vals ! i"
      using assms by simp
    then have "getitem kvs (f (ks ! i)) = Inr (vals ! i)"
      using that \<open>length ks = length vals\<close> by simp
    then show ?thesis
      by (auto simp: getitem_def split: option.splits)
  qed
  ultimately show ?thesis
    by (simp add: list_all2_conv_all_nth)
qed

lemma struct_eq_rebuilt_dict:
  assumes len: "length ks = length kvs"
    and vals: "list_all2 (\<lambda>k v. map_of kvs k = Some v) ks vals"
    and os: "list_all2 struct_eq os vals"
  shows "struct_eq (PDict (zip ks os)) (PDict kvs)"
proof -
  have l1: "length ks = length vals" and l2: "length os = length vals"
    using vals os by (auto dest: list_all2_lengthD)
  have "case map_of kvs k of None \<Rightarrow> False | Some v' \<Rightarrow> struct_eq ob v'"
    if "(k, ob) \<in> set (zip ks os)" for k ob
  proof -
    from that obtain i where i: "i < length ks" "i < length os" "ks ! i = k" "os ! i = ob"
      by (auto simp: in_set_zip)
    have "map_of kvs k = Some (vals ! i)"
      using vals i by (auto simp: list_all2_conv_all_nth)
    moreover have "struct_eq ob (vals ! i)"
      using os i by (auto simp: list_all2_conv_all_nth)
    ultimately show ?thesis by simp
  qed
  then show ?thesis
    using len l1 l2 by (auto simp: list_all_iff)
qed

lemma wf_obj_lookup:
  assumes "wf_obj (PDict kvs)" "map_of kvs k = Some v"
  shows "wf_obj v" "v \<in> snd ` set kvs"
proof -
  have "(k, v) \<in> set kvs"
    using assms(2) by (rule map_of_SomeD)
  then show "v \<in> snd ` set kvs" by force
  from \<open>(k, v) \<in> set kvs\<close> assms(1) show "wf_obj v"
    by (auto simp: list_all_iff)
qed

lemma flatten_roundtrip:
  "wf_obj obj \<Longrightarrow> flatten_to_tuple obj = Inr (res, s)
     \<Longrightarrow> \<exists>obj'. schema_call s res = Inr obj' \<and> struct_eq obj' obj"
proof (induction obj arbitrary: res s)
  case (PList xs)
  from PList.prems(2) obtain rs where rs: "map flatten_to_tuple xs = map Inr rs"
    "res = concat (map fst rs)" "s = ListSchema (map snd rs) (map length (map fst rs))"
    unfolding flatten_to_tuple_PList ListSchema_flatten_Inr_iff by blast
  have "\<exists>ob. schema_call s' res' = Inr ob \<and> struct_eq ob x"
    if "x \<in> set xs" "flatten_to_tuple x = Inr (res', s')" for x res' s'
    using PList.IH [OF that(1) _ that(2)] PList.prems(1) that(1) by (simp add: list_all_iff)
  from rebuild_elements [OF rs(1), of schema_call struct_eq, OF this] obtain os
    where os: "list_all2 (\<lambda>r ob. schema_call (snd r) (fst r) = Inr ob) rs os"
      "list_all2 struct_eq os xs"
    by blast
  have "schema_call s res = Inr (PList os)"
    unfolding rs(2,3) schema_call.simps ListSchema_call_rebuild [OF os(1)] by simp
  then show ?case
    using os(2) struct_eq_PList by blast
next
  case (PTuple xs)
  from PTuple.prems(2) obtain rs where rs: "map flatten_to_tuple xs = map Inr rs"
    "res = concat (map fst rs)" "s = TupleSchema (map snd rs) (map length (map fst rs))"
    unfolding flatten_to_tuple_PTuple ListSchema_flatten_Inr_iff by blast
  have "\<exists>ob. schema_call s' res' = Inr ob \<and> struct_eq ob x"
    if "x \<in> set xs" "flatten_to_tuple x = Inr (res', s')" for x res' s'
    using PTuple.IH [OF that(1) _ that(2)] PTuple.prems(1) that(1) by (simp add: list_all_iff)
  from rebuild_elements [OF rs(1), of schema_call struct_eq, OF this] obtain os
    where os: "list_all2 (\<lambda>r ob. schema_call (snd r) (fst r) = Inr ob) rs os"
      "list_all2 struct_eq os xs"
    by blast
  have "schema_call s res = Inr (PTuple os)"
    unfolding rs(2,3) schema_call.simps ListSchema_call_rebuild [OF os(1)] by simp
  then show ?case
    using os(2) struct_eq_PTuple by blast
next
  case (PDict kvs)
  let ?ks = "sort (str_keys kvs)"
  from PDict.prems(2) obtain vals rs where
    str: "\<not> list_ex (\<lambda>k. case k of KStr s \<Rightarrow> False | KInt i \<Rightarrow> True) (map fst kvs)"
    and vals: "map (\<lambda>k. getitem kvs (KStr k)) ?ks = map Inr vals"
    and rs: "map flatten_to_tuple vals = map Inr rs" "res = concat (map fst rs)"
      "s = DictSchema (map snd rs) (map length (map fst rs)) ?ks"
    unfolding flatten_to_tuple_PDict DictSchema_flatten_Inr_iff by blast
  have looked: "list_all2 (\<lambda>k v. map_of kvs (KStr k) = Some v) ?ks vals"
    using vals by (rule getitem_values)
  have in_vals: "\<exists>k. map_of kvs k = Some v" if "v \<in> set vals" for v
    using looked that by (auto simp: list_all2_conv_all_nth in_set_conv_nth)
  have "\<exists>ob. schema_call s' res' = Inr ob \<and> struct_eq ob v"
    if "v \<in> set vals" "flatten_to_tuple v = Inr (res', s')" for v res' s'
  proof -
    from in_vals [OF that(1)] obtain k where k: "map_of kvs k = Some v" ..
    then have "(k, v) \<in> set kvs" by (rule map_of_SomeD)
    moreover have "wf_obj v"
      using wf_obj_lookup(1) [OF PDict.prems(1) k] .
    ultimately show ?thesis
      using PDict.IH [of "(k, v)" v res' s'] that(2) by simp
  qed
  from rebuild_elements [OF rs(1), of schema_call struct_eq, OF this] obtain os
    where os: "list_all2 (\<lambda>r ob. schema_call (snd r) (fst r) = Inr ob) rs os"
      "list_all2 struct_eq os vals"
    by blast
  have keys: "map KStr (str_keys kvs) = map fst kvs"
    using str by (rule map_KStr_str_keys)
  have dist: "distinct (str_keys kvs)"
    using PDict.prems(1) keys by (metis distinct_map wf_obj.simps(3))
  have len: "length (map KStr ?ks) = length kvs"
    using keys by (metis length_map length_sort)
  have l2: "length os = length ?ks"
    using list_all2_lengthD [OF os(2)] list_all2_lengthD [OF looked] by simp
  have "distinct (map fst (zip (map KStr ?ks) os))"
    using dist l2 by (simp add: distinct_map inj_on_def)
  then have built: "dict_of_pairs (zip (map KStr ?ks) os) = zip (map KStr ?ks) os"
    by (rule dict_of_pairs_distinct)
  have "schema_call s res = Inr (PDict (zip (map KStr ?ks) os))"
    unfolding rs(2,3) schema_call.simps ListSchema_call_rebuild [OF os(1)] by (simp add: built)
  moreover have "struct_eq (PDict (zip (map KStr ?ks) os)) (PDict kvs)"
  proof (rule struct_eq_rebuilt_dict [OF len _ os(2)])
    show "list_all2 (\<lambda>k v. map_of kvs k = Some v) (map KStr ?ks) vals"
      using looked by (simp add: list_all2_map1)
  qed
  ultimately show ?case by blast
qed (simp_all add: flatten_to_tuple_leaf)

lemma str_keys_in_dom: "s \<in> set (str_keys kvs) \<Longrightarrow> KStr s \<in> fst ` set kvs"
  by (induction kvs) (auto simp: str_keys_def split: pykey.splits)

lemma getitem_sorted_values:
  "map (\<lambda>k. getitem kvs (KStr k)) (sort (str_keys kvs)) = map Inr (sorted_values kvs)"
proof -
  have "getitem kvs (KStr k) = Inr (the (map_of kvs (KStr k)))" if "k \<in> set (str_keys kvs)" for k
  proof -
    have "KStr k \<in> fst ` set kvs" using that by (rule str_keys_in_dom)
    then obtain v where "map_of kvs (KStr k) = Some v"
      by (metis map_of_eq_None_iff not_Some_eq)
    then show ?thesis by (simp add: getitem_def)
  qed
  then show ?thesis
    by (simp add: sorted_values_def)
qed

lemma set_sorted_values_subset: "set (sorted_values kvs) \<subseteq> snd ` set kvs"
  using getitem_values_subset [of kvs KStr "sort (str_keys kvs)" "sorted_values kvs"]
  by (simp add: getitem_sorted_values)

lemma set_sorted_values:
  assumes "distinct (map fst kvs)"
    and "\<not> list_ex (\<lambda>k. case k of KStr s \<Rightarrow> False | KInt i \<Rightarrow> True) (map fst kvs)"
  shows "set (sorted_values kvs) = snd ` set kvs"
proof
  show "set (sorted_values kvs) \<subseteq> snd ` set kvs" by (rule set_sorted_values_subset)
  show "snd ` set kvs \<subseteq> set (sorted_values kvs)"
  proof
    fix v assume "v \<in> snd ` set kvs"
    then obtain k where kv: "(k, v) \<in> set kvs" by auto
    then have "k \<in> set (map fst kvs)" by force
    then have "k \<in> set (map KStr (str_keys kvs))"
      using map_KStr_str_keys [OF assms(2)] by simp
    then obtain s where s: "k = KStr s" "s \<in> set (sort (str_keys kvs))" by auto
    have "map_of kvs (KStr s) = Some v"
      using assms(1) kv s(1) by simp
    then show "v \<in> set (sorted_values kvs)"
      using s(2) unfolding sorted_values_def by force
  qed
qed

lemma DictSchema_flatten_str:
  assumes "\<not> list_ex (\<lambda>k. case k of KStr s \<Rightarrow> False | KInt i \<Rightarrow> True) (map fst kvs)"
  shows "DictSchema_flatten f kvs =
     (case ListSchema_flatten ListSchema f (sorted_values kvs) of Inl e \<Rightarrow> Inl e
      | Inr (ret, schema) \<Rightarrow>
          Inr (ret, DictSchema (schemas schema) (sizes schema) (sort (str_keys kvs))))"
  using assms by (simp add: DictSchema_flatten_unfold getitem_sorted_values)

lemma all_or_raise_Inl_mem: "all_or_raise rs = Inl e \<Longrightarrow> Inl e \<in> set rs"
  by (induction rs) (auto split: sum.splits)

lemma all_or_raise_cases:
  "(\<exists>vs. all_or_raise rs = Inr vs \<and> rs = map Inr vs) \<or> (\<exists>e. all_or_raise rs = Inl e \<and> Inl e \<in> set rs)"
  by (cases "all_or_raise rs") (auto simp: all_or_raise_Inr_iff dest: all_or_raise_Inl_mem)

lemma ListSchema_flatten_Inl_iff:
  "ListSchema_flatten cls f xs = Inl e \<longleftrightarrow> all_or_raise (map f xs) = Inl e"
  by (auto simp: ListSchema_flatten_def Schema_concat_eq split: sum.splits)

lemma ListSchema_flatten_KeyError:
  assumes "\<And>x. x \<in> set xs \<Longrightarrow>
      (bad x \<longrightarrow> f x = Inl KeyError) \<and> (\<not> bad x \<longrightarrow> (\<exists>r. f x = Inr r))"
  shows "(list_ex bad xs \<longrightarrow> ListSchema_flatten cls f xs = Inl KeyError) \<and>
         (\<not> list_ex bad xs \<longrightarrow> (\<exists>r. ListSchema_flatten cls f xs = Inr r))"
proof (cases "list_ex bad xs")
  case True
  then obtain x where x: "x \<in> set xs" "bad x" by (auto simp: list_ex_iff)
  then have "f x = Inl KeyError" using assms by blast
  then have "map f xs \<noteq> map Inr vs" for vs
    using x(1) by (metis Inl_Inr_False image_eqI image_set imageE)
  then obtain e where e: "all_or_raise (map f xs) = Inl e" "Inl e \<in> set (map f xs)"
    using all_or_raise_cases [of "map f xs"] by blast
  then obtain y where "y \<in> set xs" "f y = Inl e" by auto
  then have "e = KeyError" using assms [of y] by (cases "bad y") auto
  then show ?thesis
    using True e(1) by (simp add: ListSchema_flatten_Inl_iff)
next
  case False
  then have "\<exists>r. f x = Inr r" if "x \<in> set xs" for x
    using assms that by (auto simp: list_ex_iff)
  then have "Inl e \<notin> set (map f xs)" for e
    by (metis Inl_Inr_False imageE image_set)
  then obtain vs where "all_or_raise (map f xs) = Inr vs"
    using all_or_raise_cases [of "map f xs"] by blast
  then show ?thesis
    using False by (simp add: ListSchema_flatten_def Schema_concat_eq)
qed

lemma flatten_KeyError:
  "wf_obj obj \<Longrightarrow>
     (has_nonstr_key obj \<longrightarrow> flatten_to_tuple obj = Inl KeyError) \<and>
     (\<not> has_nonstr_key obj \<longrightarrow> (\<exists>r. flatten_to_tuple obj = Inr r))"
proof (induction obj)
  case (PList xs)
  have "(has_nonstr_key x \<longrightarrow> flatten_to_tuple x = Inl KeyError) \<and>
        (\<not> has_nonstr_key x \<longrightarrow> (\<exists>r. flatten_to_tuple x = Inr r))" if "x \<in> set xs" for x
    using PList.IH [OF that] PList.prems that by (simp add: list_all_iff)
  from ListSchema_flatten_KeyError [of xs has_nonstr_key flatten_to_tuple ListSchema, OF this]
  show ?case by (simp add: flatten_to_tuple_PList)
next
  case (PTuple xs)
  have "(has_nonstr_key x \<longrightarrow> flatten_to_tuple x = Inl KeyError) \<and>
        (\<not> has_nonstr_key x \<longrightarrow> (\<exists>r. flatten_to_tuple x = Inr r))" if "x \<in> set xs" for x
    using PTuple.IH [OF that] PTuple.prems that by (simp add: list_all_iff)
  from ListSchema_flatten_KeyError [of xs has_nonstr_key flatten_to_tuple TupleSchema, OF this]
  show ?case by (simp add: flatten_to_tuple_PTuple)
next
  case (PDict kvs)
  let ?nonstr = "\<lambda>k. case k of KStr s \<Rightarrow> False | KInt i \<Rightarrow> True"
  show ?case
  proof (cases "list_ex ?nonstr (map fst kvs)")
    case True
    then have "has_nonstr_key (PDict kvs)"
      by (auto simp: list_ex_iff)
    then show ?thesis
      using True by (simp add: flatten_to_tuple_PDict DictSchema_flatten_def)
  next
    case False
    have dist: "distinct (map fst kvs)" using PDict.prems by simp
    have vals: "set (sorted_values kvs) = snd ` set kvs"
      using dist False by (rule set_sorted_values)
    have "(has_nonstr_key v \<longrightarrow> flatten_to_tuple v = Inl KeyError) \<and>
        (\<not> has_nonstr_key v \<longrightarrow> (\<exists>r. flatten_to_tuple v = Inr r))"
      if "v \<in> set (sorted_values kvs)" for v
    proof -
      from that vals obtain kv where kv: "kv \<in> set kvs" "v = snd kv" by auto
      then have "wf_obj v" using PDict.prems by (simp add: list_all_iff)
      then show ?thesis using PDict.IH [of kv v] kv by (cases kv) auto
    qed
    from ListSchema_flatten_KeyError
      [of "sorted_values kvs" has_nonstr_key flatten_to_tuple ListSchema, OF this]
    have ls: "(list_ex has_nonstr_key (sorted_values kvs) \<longrightarrow>
         ListSchema_flatten ListSchema flatten_to_tuple (sorted_values kvs) = Inl KeyError) \<and>
       (\<not> list_ex has_nonstr_key (sorted_values kvs) \<longrightarrow>
         (\<exists>r. ListSchema_flatten ListSchema flatten_to_tuple (sorted_values kvs) = Inr r))" .
    have "has_nonstr_key (PDict kvs) \<longleftrightarrow> list_ex has_nonstr_key (sorted_values kvs)"
      using False vals by (auto simp: list_ex_iff)
    then show ?thesis
      using ls by (auto simp: flatten_to_tuple_PDict DictSchema_flatten_str [OF False])
  qed
qed (simp_all add: flatten_to_tuple_leaf)

lemma map_fst_str_items: "map fst (str_items kvs) = str_keys kvs"
  by (induction kvs) (auto simp: str_items_def str_keys_def split: pykey.splits)

lemma distinct_map_sort_key: "distinct (map f (sort_key f xs)) = distinct (map f xs)"
  by (induction xs) (simp_all add: distinct_insort_key)

lemma distinct_str_keys:
  assumes "distinct (map fst kvs)"
  shows "distinct (str_keys kvs)"
proof -
  have "distinct (map KStr (str_keys kvs))"
    using assms
  proof (induction kvs)
    case Nil
    then show ?case by (simp add: str_keys_def)
  next
    case (Cons kv kvs)
    have tl: "distinct (map KStr (str_keys kvs))"
      using Cons by simp
    show ?case
    proof (cases "fst kv")
      case (KStr s)
      have "s \<notin> set (str_keys kvs)"
        using Cons.prems KStr str_keys_in_dom [of s kvs] by auto
      moreover have "str_keys (kv # kvs) = s # str_keys kvs"
        using KStr by (simp add: str_keys_def)
      ultimately show ?thesis
        using tl by auto
    next
      case (KInt i)
      then have "str_keys (kv # kvs) = str_keys kvs"
        by (simp add: str_keys_def)
      then show ?thesis using tl by simp
    qed
  qed
  then show ?thesis
    by (simp add: distinct_map)
qed

lemma map_fst_sorted_items:
  assumes "distinct (map fst kvs)"
  shows "map fst (sort_key fst (str_items kvs)) = sort (str_keys kvs)"
proof (rule sorted_distinct_set_unique)
  show "sorted (map fst (sort_key fst (str_items kvs)))" by simp
  show "distinct (map fst (sort_key fst (str_items kvs)))"
    using distinct_str_keys [OF assms] by (simp add: distinct_map_sort_key map_fst_str_items)
  show "sorted (sort (str_keys kvs))" by simp
  show "distinct (sort (str_keys kvs))" using distinct_str_keys [OF assms] by simp
  have "set (map fst (sort_key fst (str_items kvs))) = set (map fst (str_items kvs))"
    by (simp del: map_map)
  then show "set (map fst (sort_key fst (str_items kvs))) = set (sort (str_keys kvs))"
    by (simp add: map_fst_str_items)
qed

lemma sorted_values_items:
  assumes "distinct (map fst kvs)"
  shows "sorted_values kvs = map snd (sort_key fst (str_items kvs))"
proof -
  have "the (map_of kvs (KStr (fst p))) = snd p" if "p \<in> set (sort_key fst (str_items kvs))" for p
  proof -
    have "(KStr (fst p), snd p) \<in> set kvs"
      using that str_items_mem [of "fst p" "snd p" kvs] by simp
    then show ?thesis using assms by simp
  qed
  then have "map (\<lambda>p. the (map_of kvs (KStr (fst p)))) (sort_key fst (str_items kvs))
      = map snd (sort_key fst (str_items kvs))"
    by simp
  moreover have "sorted_values kvs
      = map (\<lambda>k. the (map_of kvs (KStr k))) (map fst (sort_key fst (str_items kvs)))"
    unfolding sorted_values_def map_fst_sorted_items [OF assms] ..
  ultimately show ?thesis
    by (simp add: comp_def)
qed

lemma flatten_elements:
  assumes "\<And>x. x \<in> set xs \<Longrightarrow> \<exists>s. f x = Inr (g x, s)"
  shows "\<exists>rs. map f xs = map Inr rs \<and> map fst rs = map g xs"
  using assms
proof (induction xs)
  case Nil
  then show ?case by simp
next
  case (Cons x xs)
  then obtain rs where rs: "map f xs = map Inr rs" "map fst rs = map g xs"
    by auto
  from Cons.prems [of x] obtain s where "f x = Inr (g x, s)" by auto
  then show ?case
    using rs by (intro exI [of _ "(g x, s) # rs"]) simp
qed

lemma ListSchema_flatten_leaves:
  assumes "\<And>x. x \<in> set xs \<Longrightarrow> \<exists>s. f x = Inr (g x, s)"
  shows "\<exists>ss sz. ListSchema_flatten cls f xs = Inr (concat (map g xs), cls ss sz)"
proof -
  from flatten_elements [of xs f g, OF assms] obtain rs
    where rs: "map f xs = map Inr rs" "map fst rs = map g xs" by blast
  have "ListSchema_flatten cls f xs
      = Inr (concat (map fst rs), cls (map snd rs) (map length (map fst rs)))"
    unfolding ListSchema_flatten_Inr_iff using rs(1) by blast
  then show ?thesis
    unfolding rs(2) by blast
qed

lemma flatten_leaves_aux:
  "wf_obj obj \<Longrightarrow> \<not> has_nonstr_key obj \<Longrightarrow>
     (\<exists>s. flatten_to_tuple obj = Inr (leaves_spec obj, s)) \<and> list_all is_leaf (leaves_spec obj)"
proof (induction obj)
  case (PList xs)
  have ih: "(\<exists>s. flatten_to_tuple x = Inr (leaves_spec x, s)) \<and> list_all is_leaf (leaves_spec x)"
    if "x \<in> set xs" for x
    using PList.IH [OF that] PList.prems that by (simp add: list_all_iff list_ex_iff)
  then have "\<exists>s. flatten_to_tuple x = Inr (leaves_spec x, s)" if "x \<in> set xs" for x
    using that by blast
  from ListSchema_flatten_leaves [of xs flatten_to_tuple leaves_spec ListSchema, OF this]
  have "\<exists>s. flatten_to_tuple (PList xs) = Inr (leaves_spec (PList xs), s)"
    by (auto simp: flatten_to_tuple_PList)
  moreover have "list_all is_leaf (leaves_spec (PList xs))"
    using ih by (auto simp: list_all_iff)
  ultimately show ?case by blast
next
  case (PTuple xs)
  have ih: "(\<exists>s. flatten_to_tuple x = Inr (leaves_spec x, s)) \<and> list_all is_leaf (leaves_spec x)"
    if "x \<in> set xs" for x
    using PTuple.IH [OF that] PTuple.prems that by (simp add: list_all_iff list_ex_iff)
  then have "\<exists>s. flatten_to_tuple x = Inr (leaves_spec x, s)" if "x \<in> set xs" for x
    using that by blast
  from ListSchema_flatten_leaves [of xs flatten_to_tuple leaves_spec TupleSchema, OF this]
  have "\<exists>s. flatten_to_tuple (PTuple xs) = Inr (leaves_spec (PTuple xs), s)"
    by (auto simp: flatten_to_tuple_PTuple)
  moreover have "list_all is_leaf (leaves_spec (PTuple xs))"
    using ih by (auto simp: list_all_iff)
  ultimately show ?case by blast
next
  case (PDict kvs)
  let ?nonstr = "\<lambda>k. case k of KStr s \<Rightarrow> False | KInt i \<Rightarrow> True"
  have str: "\<not> list_ex ?nonstr (map fst kvs)"
    using PDict.prems(2) by (auto simp: list_ex_iff)
  have dist: "distinct (map fst kvs)" using PDict.prems(1) by simp
  have ih: "(\<exists>s. flatten_to_tuple v = Inr (leaves_spec v, s)) \<and> list_all is_leaf (leaves_spec v)"
    if "v \<in> snd ` set kvs" for v
  proof -
    from that obtain kv where kv: "kv \<in> set kvs" "v = snd kv" by auto
    then have "wf_obj v" "\<not> has_nonstr_key v"
      using PDict.prems by (auto simp: list_all_iff list_ex_iff)
    then show ?thesis using PDict.IH [of kv v] kv by (cases kv) auto
  qed
  have vals: "set (sorted_values kvs) = snd ` set kvs"
    using dist str by (rule set_sorted_values)
  have "\<exists>s. flatten_to_tuple v = Inr (leaves_spec v, s)" if "v \<in> set (sorted_values kvs)" for v
    using ih that vals by blast
  from ListSchema_flatten_leaves [of "sorted_values kvs" flatten_to_tuple leaves_spec ListSchema, OF this]
  obtain ss sz where "ListSchema_flatten ListSchema flatten_to_tuple (sorted_values kvs)
      = Inr (concat (map leaves_spec (sorted_values kvs)), ListSchema ss sz)"
    by blast
  then have fl: "flatten_to_tuple (PDict kvs)
      = Inr (concat (map leaves_spec (sorted_values kvs)), DictSchema ss sz (sort (str_keys kvs)))"
    by (simp add: flatten_to_tuple_PDict DictSchema_flatten_str [OF str])
  have eq: "leaves_spec (PDict kvs) = concat (map leaves_spec (sorted_values kvs))"
    by (simp add: sorted_values_items [OF dist] comp_def case_prod_unfold)
  have "list_all is_leaf (concat (map leaves_spec (sorted_values kvs)))"
    using ih vals by (auto simp: list_all_iff)
  then show ?case
    unfolding eq using fl by blast
qed (simp_all add: flatten_to_tuple_leaf is_leaf_def)

lemma struct_eq_dict_keys:
  assumes "wf_obj (PDict kvs)" "wf_obj (PDict kvs')" "struct_eq (PDict kvs) (PDict kvs')"
  shows "set (map fst kvs) = set (map fst kvs')"
proof -
  have len: "length kvs = length kvs'" using assms(3) by simp
  have sub: "set (map fst kvs) \<subseteq> set (map fst kvs')"
  proof
    fix k assume "k \<in> set (map fst kvs)"
    then obtain v where "(k, v) \<in> set kvs" by auto
    then have "map_of kvs' k \<noteq> None"
      using assms(3) by (auto simp: list_all_iff split: option.splits)
    then show "k \<in> set (map fst kvs')"
      by (simp add: map_of_eq_None_iff)
  qed
  have "card (set (map fst kvs)) = length kvs" "card (set (map fst kvs')) = length kvs'"
    using assms(1,2) by (simp_all add: distinct_card del: set_map)
  then have "card (set (map fst kvs')) \<le> card (set (map fst kvs))"
    using len by simp
  with sub show ?thesis
    by (intro card_seteq) simp_all
qed

lemma str_keys_cong:
  assumes "distinct (map fst kvs)" "distinct (map fst kvs')"
    and "set (map fst kvs) = set (map fst kvs')"
  shows "sort (str_keys kvs) = sort (str_keys kvs')"
proof (rule sorted_distinct_set_unique)
  show "sorted (sort (str_keys kvs))" "sorted (sort (str_keys kvs'))" by simp_all
  show "distinct (sort (str_keys kvs))" "distinct (sort (str_keys kvs'))"
    using assms(1,2) by (simp_all add: distinct_str_keys)
  have mem: "s \<in> set (str_keys d) \<longleftrightarrow> KStr s \<in> set (map fst d)" for s and d :: "(pykey \<times> 'c) list"
    by (induction d) (auto simp: str_keys_def split: pykey.splits)
  have "set (str_keys kvs) = set (str_keys kvs')"
    using assms(3) mem [of _ kvs] mem [of _ kvs'] by blast
  then show "set (sort (str_keys kvs)) = set (sort (str_keys kvs'))" by simp
qed

lemma flatten_struct_eq:
  "wf_obj a \<Longrightarrow> wf_obj b \<Longrightarrow> struct_eq a b \<Longrightarrow> flatten_to_tuple a = flatten_to_tuple b"
proof (induction a b rule: struct_eq.induct)
  case (1 xs ys)
  have len: "length xs = length ys" using "1.prems"(3) by simp
  have "flatten_to_tuple (xs ! i) = flatten_to_tuple (ys ! i)" if "i < length xs" for i
  proof -
    have mem: "(xs ! i, ys ! i) \<in> set (zip xs ys)"
      using that len by (auto simp: in_set_zip)
    then have "struct_eq (xs ! i) (ys ! i)"
      using "1.prems"(3) by (auto simp: list_all_iff)
    moreover have "wf_obj (xs ! i)" "wf_obj (ys ! i)"
      using "1.prems"(1,2) that len by (simp_all add: list_all_length)
    ultimately show ?thesis
      using "1.IH" [OF mem refl] by blast
  qed
  then have "map flatten_to_tuple xs = map flatten_to_tuple ys"
    using len by (intro nth_equalityI) simp_all
  then show ?case
    by (simp add: flatten_to_tuple_PList ListSchema_flatten_def)
next
  case (2 xs ys)
  have len: "length xs = length ys" using "2.prems"(3) by simp
  have "flatten_to_tuple (xs ! i) = flatten_to_tuple (ys ! i)" if "i < length xs" for i
  proof -
    have mem: "(xs ! i, ys ! i) \<in> set (zip xs ys)"
      using that len by (auto simp: in_set_zip)
    then have "struct_eq (xs ! i) (ys ! i)"
      using "2.prems"(3) by (auto simp: list_all_iff)
    moreover have "wf_obj (xs ! i)" "wf_obj (ys ! i)"
      using "2.prems"(1,2) that len by (simp_all add: list_all_length)
    ultimately show ?thesis
      using "2.IH" [OF mem refl] by blast
  qed
  then have "map flatten_to_tuple xs = map flatten_to_tuple ys"
    using len by (intro nth_equalityI) simp_all
  then show ?case
    by (simp add: flatten_to_tuple_PTuple ListSchema_flatten_def)
next
  case (3 kvs kvs')
  let ?nonstr = "\<lambda>k. case k of KStr s \<Rightarrow> False | KInt i \<Rightarrow> True"
  have d: "distinct (map fst kvs)" and d': "distinct (map fst kvs')"
    using "3.prems"(1,2) by simp_all
  have keys: "set (map fst kvs) = set (map fst kvs')"
    using "3.prems" by (rule struct_eq_dict_keys)
  then have ex: "list_ex ?nonstr (map fst kvs) = list_ex ?nonstr (map fst kvs')"
    unfolding list_ex_iff by simp
  show ?case
  proof (cases "list_ex ?nonstr (map fst kvs)")
    case True
    then show ?thesis
      using ex by (simp add: flatten_to_tuple_PDict DictSchema_flatten_def)
  next
    case False
    then have False': "\<not> list_ex ?nonstr (map fst kvs')" using ex by simp
    have sk: "sort (str_keys kvs) = sort (str_keys kvs')"
      using d d' keys by (rule str_keys_cong)
    have "flatten_to_tuple (the (map_of kvs (KStr k))) = flatten_to_tuple (the (map_of kvs' (KStr k)))"
      if "k \<in> set (str_keys kvs)" for k
    proof -
      have "KStr k \<in> fst ` set kvs" using that by (rule str_keys_in_dom)
      then obtain v where v: "(KStr k, v) \<in> set kvs" by auto
      then have mv: "map_of kvs (KStr k) = Some v" using d by simp
      from v "3.prems"(3) obtain v' where v': "map_of kvs' (KStr k) = Some v'" "struct_eq v v'"
        by (auto simp: list_all_iff split: option.splits)
      have "wf_obj v" using wf_obj_lookup(1) [OF "3.prems"(1) mv] .
      moreover have "wf_obj v'" using wf_obj_lookup(1) [OF "3.prems"(2) v'(1)] .
      ultimately have "flatten_to_tuple v = flatten_to_tuple v'"
        using "3.IH" [OF v refl v'(1)] v'(2) by blast
      then show ?thesis using mv v'(1) by simp
    qed
    then have "map flatten_to_tuple (sorted_values kvs) = map flatten_to_tuple (sorted_values kvs')"
      unfolding sorted_values_def sk [symmetric] by simp
    then have ls: "ListSchema_flatten ListSchema flatten_to_tuple (sorted_values kvs)
        = ListSchema_flatten ListSchema flatten_to_tuple (sorted_values kvs')"
      by (simp add: ListSchema_flatten_def)
    show ?thesis
      unfolding flatten_to_tuple_PDict DictSchema_flatten_str [OF False]
        DictSchema_flatten_str [OF False'] ls sk ..
  qed
qed simp_all

lemma struct_eq_dictI:
  assumes "wf_obj (PDict d1)" "wf_obj (PDict d2)"
    and "\<forall>k. rel_option struct_eq (map_of d1 k) (map_of d2 k)"
  shows "struct_eq (PDict d1) (PDict d2)"
proof -
  have "dom (map_of d1) = dom (map_of d2)"
  proof (rule set_eqI)
    fix k
    show "k \<in> dom (map_of d1) \<longleftrightarrow> k \<in> dom (map_of d2)"
      using assms(3) [rule_format, of k]
      by (cases "map_of d1 k"; cases "map_of d2 k") auto
  qed
  then have "set (map fst d1) = set (map fst d2)"
    by (simp add: dom_map_of_conv_image_fst)
  moreover have "card (set (map fst d1)) = length d1" "card (set (map fst d2)) = length d2"
    using assms(1,2) by (simp_all add: distinct_card del: set_map)
  ultimately have len: "length d1 = length d2" by simp
  have "case map_of d2 k of None \<Rightarrow> False | Some v' \<Rightarrow> struct_eq v v'" if "(k, v) \<in> set d1" for k v
  proof -
    have "map_of d1 k = Some v" using that assms(1) by simp
    then show ?thesis
      using assms(3) [rule_format, of k] by (cases "map_of d2 k") auto
  qed
  then show ?thesis
    using len by (auto simp: list_all_iff)
qed

lemma elems_inv_flatten:
  assumes "map flatten_to_tuple xs = map Inr rs"
    and "\<And>x r m. x \<in> set xs \<Longrightarrow> flatten_to_tuple x = Inr (r, m) \<Longrightarrow> P x r m"
  shows "elems_inv P xs (map snd rs) (map length (map fst rs)) (concat (map fst rs))"
proof -
  have len: "length xs = length rs"
    using assms(1) by (metis length_map)
  have nth: "flatten_to_tuple (xs ! i) = Inr (rs ! i)" if "i < length xs" for i
  proof -
    have "map flatten_to_tuple xs ! i = map Inr rs ! i" using assms(1) by simp
    then show ?thesis using that len by simp
  qed
  have "case flatten_to_tuple x of Inl e \<Rightarrow> False
          | Inr (r, m') \<Rightarrow> m' = m \<and> n = length r \<and> P x r m"
    if "(x, m, n) \<in> set (zip xs (zip (map snd rs) (map length (map fst rs))))" for x m n
  proof -
    from that obtain i where i: "i < length xs" "xs ! i = x" "snd (rs ! i) = m"
      "length (fst (rs ! i)) = n"
      using len by (auto simp: in_set_zip)
    have fl: "flatten_to_tuple x = Inr (fst (rs ! i), m)"
      using nth [OF i(1)] i(2,3) by (simp add: prod_eq_iff)
    have "P x (fst (rs ! i)) m"
      using assms(2) [OF _ fl] i(1,2) by auto
    then show ?thesis
      using fl i(4) by simp
  qed
  then show ?thesis
    unfolding elems_inv_def list_all_iff using len by (auto simp: length_concat comp_def)
qed

lemma flatten_size_inv:
  "flatten_to_tuple obj = Inr (res, s) \<Longrightarrow> size_inv obj res s"
proof (induction obj arbitrary: res s)
  case (PList xs)
  from PList.prems obtain rs where rs: "map flatten_to_tuple xs = map Inr rs"
    "res = concat (map fst rs)" "s = ListSchema (map snd rs) (map length (map fst rs))"
    unfolding flatten_to_tuple_PList ListSchema_flatten_Inr_iff by blast
  have "elems_inv size_inv xs (map snd rs) (map length (map fst rs)) (concat (map fst rs))"
    using rs(1) PList.IH by (rule elems_inv_flatten)
  then show ?case
    unfolding rs(2,3) by simp
next
  case (PTuple xs)
  from PTuple.prems obtain rs where rs: "map flatten_to_tuple xs = map Inr rs"
    "res = concat (map fst rs)" "s = TupleSchema (map snd rs) (map length (map fst rs))"
    unfolding flatten_to_tuple_PTuple ListSchema_flatten_Inr_iff by blast
  have "elems_inv size_inv xs (map snd rs) (map length (map fst rs)) (concat (map fst rs))"
    using rs(1) PTuple.IH by (rule elems_inv_flatten)
  then show ?case
    unfolding rs(2,3) by simp
next
  case (PDict kvs)
  from PDict.prems obtain vals rs where
    vals: "map (\<lambda>k. getitem kvs (KStr k)) (sort (str_keys kvs)) = map Inr vals"
    and rs: "map flatten_to_tuple vals = map Inr rs" "res = concat (map fst rs)"
      "s = DictSchema (map snd rs) (map length (map fst rs)) (sort (str_keys kvs))"
    unfolding flatten_to_tuple_PDict DictSchema_flatten_Inr_iff by blast
  have eq: "vals = sorted_values kvs"
    using vals by (simp add: getitem_sorted_values inj_map_eq_map)
  have "size_inv v r m" if "v \<in> set vals" "flatten_to_tuple v = Inr (r, m)" for v r m
  proof -
    have "v \<in> snd ` set kvs"
      using that(1) set_sorted_values_subset [of kvs] eq by blast
    then obtain k where "(k, v) \<in> set kvs" by auto
    then show ?thesis
      using PDict.IH [of "(k, v)" v r m] that(2) by simp
  qed
  with rs(1)
  have "elems_inv size_inv vals (map snd rs) (map length (map fst rs)) (concat (map fst rs))"
    by (rule elems_inv_flatten)
  then show ?case
    unfolding rs(2,3) eq by simp
qed (simp_all add: flatten_to_tuple_leaf)

lemma flatten_error_KeyError: "flatten_to_tuple obj = Inl e \<Longrightarrow> e = KeyError"
proof (induction obj)
  case (PList xs)
  then have "all_or_raise (map flatten_to_tuple xs) = Inl e"
    by (simp add: flatten_to_tuple_PList ListSchema_flatten_Inl_iff)
  then have "Inl e \<in> set (map flatten_to_tuple xs)"
    by (rule all_or_raise_Inl_mem)
  then show ?case using PList.IH by auto
next
  case (PTuple xs)
  then have "all_or_raise (map flatten_to_tuple xs) = Inl e"
    by (simp add: flatten_to_tuple_PTuple ListSchema_flatten_Inl_iff)
  then have "Inl e \<in> set (map flatten_to_tuple xs)"
    by (rule all_or_raise_Inl_mem)
  then show ?case using PTuple.IH by auto
next
  case (PDict kvs)
  let ?nonstr = "\<lambda>k. case k of KStr s \<Rightarrow> False | KInt i \<Rightarrow> True"
  show ?case
  proof (cases "list_ex ?nonstr (map fst kvs)")
    case True
    then show ?thesis
      using PDict.prems by (simp add: flatten_to_tuple_PDict DictSchema_flatten_def)
  next
    case False
    have "ListSchema_flatten ListSchema flatten_to_tuple (sorted_values kvs) = Inl e"
      using PDict.prems
      by (auto simp: flatten_to_tuple_PDict DictSchema_flatten_str [OF False] split: sum.splits)
    then have "all_or_raise (map flatten_to_tuple (sorted_values kvs)) = Inl e"
      by (simp add: ListSchema_flatten_Inl_iff)
    then have "Inl e \<in> set (map flatten_to_tuple (sorted_values kvs))"
      by (rule all_or_raise_Inl_mem)
    then obtain v where v: "v \<in> set (sorted_values kvs)" "flatten_to_tuple v = Inl e" by auto
    then have "v \<in> snd ` set kvs"
      using set_sorted_values_subset [of kvs] by blast
    then obtain k where "(k, v) \<in> set kvs" by auto
    then show ?thesis
      using PDict.IH [of "(k, v)" v] v(2) by simp
  qed
qed (simp_all add: flatten_to_tuple_leaf)

lemma find_non_tensor:
  "\<not> list_all P xs \<Longrightarrow> \<exists>x. find (\<lambda>x. \<not> P x) xs = Some x"
  by (induction xs) auto

lemma TracingAdapter_init_strict:
  "TracingAdapter_init m inp False = Inl ValueError \<longleftrightarrow>
     (\<exists>flat sch. flatten_to_tuple (as_tuple inp) = Inr (flat, sch)
        \<and> \<not> list_all (\<lambda>x. isinstance x CTensor) flat)"
proof (cases "flatten_to_tuple (as_tuple inp)")
  case (Inl e)
  then have "e = KeyError" by (rule flatten_error_KeyError)
  then show ?thesis
    using Inl by (simp add: TracingAdapter_init_def)
next
  case (Inr r)
  obtain flat sch where r: "r = (flat, sch)" by (cases r)
  show ?thesis
  proof (cases "list_all (\<lambda>x. isinstance x CTensor) flat")
    case True
    then show ?thesis
      using Inr r by (simp add: TracingAdapter_init_def)
  next
    case False
    from find_non_tensor [OF False] obtain x
      where "find (\<lambda>x. \<not> isinstance x CTensor) flat = Some x" ..
    then show ?thesis
      using Inr r False by (simp add: TracingAdapter_init_def)
  qed
qed

lemma TracingAdapter_init_lenient:
  "TracingAdapter_init m inp True \<noteq> Inl ValueError"
  "flatten_to_tuple (as_tuple inp) = Inr (flat, sch) \<Longrightarrow>
     \<not> list_all (\<lambda>x. isinstance x CTensor) flat \<Longrightarrow>
     \<exists>a. TracingAdapter_init m inp True = Inr a
        \<and> flattened_inputs a = filter (\<lambda>x. isinstance x CTensor) flat
        \<and> inputs_schema a = None"
proof -
  show "TracingAdapter_init m inp True \<noteq> Inl ValueError"
  proof (cases "flatten_to_tuple (as_tuple inp)")
    case (Inl e)
    then have "e = KeyError" by (rule flatten_error_KeyError)
    then show ?thesis
      using Inl by (simp add: TracingAdapter_init_def)
  next
    case (Inr r)
    then show ?thesis
      by (cases r) (simp add: TracingAdapter_init_def Let_def)
  qed
  show "\<exists>a. TracingAdapter_init m inp True = Inr a
        \<and> flattened_inputs a = filter (\<lambda>x. isinstance x CTensor) flat
        \<and> inputs_schema a = None"
    if "flatten_to_tuple (as_tuple inp) = Inr (flat, sch)"
      "\<not> list_all (\<lambda>x. isinstance x CTensor) flat"
    using that by (simp add: TracingAdapter_init_def)
qed


lemma training_train [simp]: "training (train mode m) = mode"
  by (cases m) simp_all

lemma training_rewrap_train:
  "training (rewrap m (train (training m) inner)) = training m"
  by (cases m) simp_all

lemma flop_count_operators_restores:
  "fst (flop_count_operators by_operator g m inp) = Inr r \<Longrightarrow>
     training (snd (flop_count_operators by_operator g m inp)) = training m"
  by (auto simp: flop_count_operators_def Let_def split: sum.splits prod.splits)

lemma wrapper_count_operators_restores:
  "fst (wrapper_count_operators fc ac m inp mode kw) = Inr r \<Longrightarrow>
     training (snd (wrapper_count_operators fc ac m inp mode kw)) = training m"
  by (auto simp: wrapper_count_operators_def Let_def training_rewrap_train
      split: sum.splits prod.splits list.splits)

lemma task_table_handler:
  "t \<in> set task_choices \<Longrightarrow> map_of task_table t = Some (handler_of t)"
  by (auto simp: task_choices_def task_table_def handler_of_def)

lemma struct_eq_opaque: "opaque a \<Longrightarrow> struct_eq a b \<Longrightarrow> a = b"
  by (cases a) auto

lemma struct_eq_py_eq:
  "struct_eq a b \<Longrightarrow> \<not> opaque a \<Longrightarrow> py_eq eqo a b"
proof (induction a b rule: struct_eq.induct)
  case (1 xs ys)
  have "(opaque x \<and> x = y) \<or> py_eq eqo x y" if "(x, y) \<in> set (zip xs ys)" for x y
  proof (cases "opaque x")
    case True
    have "struct_eq x y" using "1.prems"(1) that by (auto simp: list_all_iff)
    then show ?thesis using True struct_eq_opaque by blast
  next
    case False
    have "struct_eq x y" using "1.prems"(1) that by (auto simp: list_all_iff)
    then show ?thesis using "1.IH" [OF that refl] False by blast
  qed
  then show ?case
    using "1.prems"(1) by (auto simp: list_all_iff)
next
  case (2 xs ys)
  have "(opaque x \<and> x = y) \<or> py_eq eqo x y" if "(x, y) \<in> set (zip xs ys)" for x y
  proof (cases "opaque x")
    case True
    have "struct_eq x y" using "2.prems"(1) that by (auto simp: list_all_iff)
    then show ?thesis using True struct_eq_opaque by blast
  next
    case False
    have "struct_eq x y" using "2.prems"(1) that by (auto simp: list_all_iff)
    then show ?thesis using "2.IH" [OF that refl] False by blast
  qed
  then show ?case
    using "2.prems"(1) by (auto simp: list_all_iff)
next
  case (3 kvs kvs')
  have "case map_of kvs' k of None \<Rightarrow> False
        | Some v' \<Rightarrow> (opaque v \<and> v = v') \<or> py_eq eqo v v'"
    if "(k, v) \<in> set kvs" for k v
  proof -
    from "3.prems"(1) that obtain v' where v': "map_of kvs' k = Some v'" "struct_eq v v'"
      by (auto simp: list_all_iff split: option.splits)
    show ?thesis
    proof (cases "opaque v")
      case True
      then show ?thesis using v' struct_eq_opaque by auto
    next
      case False
      then show ?thesis using "3.IH" [OF that refl v'(1)] v' by simp
    qed
  qed
  then show ?case
    using "3.prems"(1) by (auto simp: list_all_iff)
qed auto

lemma run_tasks_invoke:
  "list_all (\<lambda>t. t \<in> set task_choices) ts \<Longrightarrow>
     run_tasks call c ts w = invoke_in_order call c (map handler_of ts) w"
proof (induction ts arbitrary: w)
  case Nil
  then show ?case by simp
next
  case (Cons t ts)
  have f: "map_of task_table t = Some (handler_of t)"
    using Cons.prems by (simp add: task_table_handler)
  show ?case
    using Cons.prems Cons.IH by (simp add: f split: prod.splits option.splits)
qed

lemma invoke_record:
  "invoke_in_order record_call c fs w = (None, w @ map (\<lambda>f. (f, c)) fs)"
  by (induction fs arbitrary: w) (simp_all add: record_call_def)

lemma main_invoke:
  assumes "tasks a \<noteq> []" "list_all (\<lambda>t. t \<in> set task_choices) (tasks a)"
    and "\<not> eval_only a" "num_gpus a = 1" "setup a = Inr c"
  shows "main setup call a w
    = invoke_in_order call (c\<lparr>train_init_checkpoint := ckpt a\<rparr>) (map handler_of (tasks a)) w"
proof -
  have "parse_tasks (tasks a) = Inr (tasks a)"
    using assms(1,2) by (auto simp: parse_tasks_def list_all_iff list_ex_iff)
  then show ?thesis
    using assms(2-5) by (simp add: main_def run_tasks_invoke)
qed

section \<open>The properties\<close>

text \<open>
  C3 (type check on mapping keys). For a well-formed object, \<open>flatten_to_tuple\<close> raises
  \<open>KeyError\<close> exactly when the object, or a container nested inside it, is a mapping with a
  key that is not a \<open>str\<close>; when every key of every mapping is a \<open>str\<close> it returns a result.
\<close>

theorem flatten_to_tuple_KeyError_iff:
  assumes "wf_obj obj"
  shows "(flatten_to_tuple obj = Inl KeyError \<longleftrightarrow> has_nonstr_key obj) \<and>
         ((\<exists>r. flatten_to_tuple obj = Inr r) \<longleftrightarrow> \<not> has_nonstr_key obj)"
  using flatten_KeyError [OF assms] by auto

theorem flatten_to_tuple_KeyError_iff_witness:
  "wf_obj (PList [PDict [(KStr ''a'', PDict [(KInt 1, PTensor (0::nat))])]])
   \<and> has_nonstr_key (PList [PDict [(KStr ''a'', PDict [(KInt 1, PTensor (0::nat))])]])
   \<and> flatten_to_tuple (PList [PDict [(KStr ''a'', PDict [(KInt 1, PTensor (0::nat))])]])
       = Inl KeyError"
proof -
  let ?obj = "PList [PDict [(KStr ''a'', PDict [(KInt 1, PTensor (0::nat))])]]"
  have wf: "wf_obj ?obj" by simp
  have bad: "has_nonstr_key ?obj" by simp
  from flatten_to_tuple_KeyError_iff [OF wf] wf bad show ?thesis
    by blast
qed

text \<open>
  C9 (strings are atomic leaves). A \<open>str\<close> or \<open>bytes\<close> value flattens to the one-element
  tuple holding the value itself, with an \<open>IdentitySchema\<close>; so does every object that is
  not a list, a tuple or a mapping.
\<close>

theorem flatten_to_tuple_atomic:
  "flatten_to_tuple (PStr v) = Inr ([PStr v], IdentitySchema) \<and>
   flatten_to_tuple (PBytes b) = Inr ([PBytes b], IdentitySchema) \<and>
   (\<not> isinstance obj Clist \<and> \<not> isinstance obj Ctuple \<and> \<not> isinstance obj CMapping
      \<longrightarrow> flatten_to_tuple obj = Inr ([obj], IdentitySchema))"
  by (cases obj) (simp_all add: flatten_to_tuple_leaf)

theorem flatten_to_tuple_atomic_witness:
  "flatten_to_tuple (PStr ''abc'' :: nat pyobj) = Inr ([PStr ''abc''], IdentitySchema) \<and>
   flatten_to_tuple (PBytes ''xy'' :: nat pyobj) = Inr ([PBytes ''xy''], IdentitySchema) \<and>
   \<not> isinstance (POther (7::nat)) Clist \<and> \<not> isinstance (POther (7::nat)) Ctuple \<and>
   \<not> isinstance (POther (7::nat)) CMapping \<and>
   flatten_to_tuple (POther (7::nat)) = Inr ([POther 7], IdentitySchema)"
  using flatten_to_tuple_atomic [of "''abc''" "''xy''" "POther (7::nat)"] by simp

text \<open>
  C2 (flat result). For every well-formed object whose mappings have only \<open>str\<close> keys,
  \<open>flatten_to_tuple\<close> returns, and the first component of its result is the list of the
  leaves of the object in order (\<open>leaves_spec\<close>: list and tuple elements in element order,
  mapping values by sorted key); no element of it is a list, a tuple or a mapping.
\<close>

theorem flatten_to_tuple_leaves:
  assumes "wf_obj obj" and "\<not> has_nonstr_key obj"
  shows "(\<exists>s. flatten_to_tuple obj = Inr (leaves_spec obj, s)) \<and> list_all is_leaf (leaves_spec obj)"
  using assms by (rule flatten_leaves_aux)

theorem flatten_to_tuple_leaves_witness:
  "wf_obj (PDict [(KStr ''b'', PList [PTensor (1::nat), PStr ''x'']), (KStr ''a'', PTuple [POther 5])])
   \<and> \<not> has_nonstr_key
       (PDict [(KStr ''b'', PList [PTensor (1::nat), PStr ''x'']), (KStr ''a'', PTuple [POther 5])])
   \<and> leaves_spec (PDict [(KStr ''b'', PList [PTensor (1::nat), PStr ''x'']), (KStr ''a'', PTuple [POther 5])])
       = [POther 5, PTensor 1, PStr ''x'']
   \<and> (\<exists>s. flatten_to_tuple
         (PDict [(KStr ''b'', PList [PTensor (1::nat), PStr ''x'']), (KStr ''a'', PTuple [POther 5])])
       = Inr ([POther 5, PTensor 1, PStr ''x''], s))
   \<and> list_all is_leaf [POther (5::nat), PTensor 1, PStr ''x'']"
proof -
  let ?obj = "PDict [(KStr ''b'', PList [PTensor (1::nat), PStr ''x'']), (KStr ''a'', PTuple [POther 5])]"
  have wf: "wf_obj ?obj" by simp
  have nk: "\<not> has_nonstr_key ?obj" by simp
  have lv: "leaves_spec ?obj = [POther 5, PTensor 1, PStr ''x'']" by code_simp
  from flatten_to_tuple_leaves [OF wf nk] have
    "(\<exists>s. flatten_to_tuple ?obj = Inr ([POther 5, PTensor 1, PStr ''x''], s))
      \<and> list_all is_leaf [POther (5::nat), PTensor 1, PStr ''x'']"
    unfolding lv .
  with wf nk lv show ?thesis by blast
qed

text \<open>
  C5 (schema size invariant). Whenever \<open>flatten_to_tuple obj\<close> returns \<open>(res, schema)\<close>,
  the schema satisfies \<open>size_inv\<close>: if it is a \<open>ListSchema\<close>, \<open>TupleSchema\<close> or
  \<open>DictSchema\<close> then \<open>schemas\<close> and \<open>sizes\<close> have the same length, the sum of \<open>sizes\<close> is
  the length of \<open>res\<close>, every entry of \<open>sizes\<close> is the length of the flattened tuple of the
  corresponding element (whose schema is the corresponding entry of \<open>schemas\<close>), and the same
  holds for that element and its schema, recursively.
\<close>

theorem flatten_to_tuple_size_invariant:
  assumes "flatten_to_tuple obj = Inr (res, s)"
  shows "size_inv obj res s"
  using assms by (rule flatten_size_inv)

theorem flatten_to_tuple_size_invariant_witness:
  "flatten_to_tuple (PTuple [PDict [(KStr ''b'', PList [PTensor (1::nat), PStr ''x'']), (KStr ''a'', PTuple [])],
       POther 4])
     = Inr ([PTensor 1, PStr ''x'', POther 4],
         TupleSchema
           [DictSchema [TupleSchema [] [], ListSchema [IdentitySchema, IdentitySchema] [1, 1]]
              [0, 2] [''a'', ''b''],
            IdentitySchema]
           [2, 1])
   \<and> size_inv
       (PTuple [PDict [(KStr ''b'', PList [PTensor (1::nat), PStr ''x'']), (KStr ''a'', PTuple [])],
          POther 4])
       [PTensor 1, PStr ''x'', POther 4]
       (TupleSchema
           [DictSchema [TupleSchema [] [], ListSchema [IdentitySchema, IdentitySchema] [1, 1]]
              [0, 2] [''a'', ''b''],
            IdentitySchema]
           [2, 1])"
proof -
  have fl: "flatten_to_tuple
      (PTuple [PDict [(KStr ''b'', PList [PTensor (1::nat), PStr ''x'']), (KStr ''a'', PTuple [])],
         POther 4])
     = Inr ([PTensor 1, PStr ''x'', POther 4],
         TupleSchema
           [DictSchema [TupleSchema [] [], ListSchema [IdentitySchema, IdentitySchema] [1, 1]]
              [0, 2] [''a'', ''b''],
            IdentitySchema]
           [2, 1])"
    by code_simp
  from flatten_to_tuple_size_invariant [OF fl] fl show ?thesis
    by (rule conjI [rotated])
qed

text \<open>
  C4 (type check on tracing inputs). With \<open>allow_non_tensor = False\<close> the constructor raises
  \<open>ValueError\<close> exactly when the inputs flatten and some element of the flattened inputs is
  not a tensor. With \<open>allow_non_tensor = True\<close> it never raises \<open>ValueError\<close>; where some
  element is not a tensor, it keeps the tensors only in \<open>flattened_inputs\<close> and sets
  \<open>inputs_schema\<close> to \<open>None\<close>.
\<close>

theorem TracingAdapter_init_type_check:
  "(TracingAdapter_init m inp False = Inl ValueError \<longleftrightarrow>
      (\<exists>flat sch. flatten_to_tuple (as_tuple inp) = Inr (flat, sch)
         \<and> \<not> list_all (\<lambda>x. isinstance x CTensor) flat))
   \<and> TracingAdapter_init m inp True \<noteq> Inl ValueError
   \<and> (\<forall>flat sch. flatten_to_tuple (as_tuple inp) = Inr (flat, sch)
         \<and> \<not> list_all (\<lambda>x. isinstance x CTensor) flat \<longrightarrow>
         (\<exists>a. TracingAdapter_init m inp True = Inr a
            \<and> flattened_inputs a = filter (\<lambda>x. isinstance x CTensor) flat
            \<and> inputs_schema a = None))"
  using TracingAdapter_init_strict [of m inp] TracingAdapter_init_lenient(1) [of m inp]
    TracingAdapter_init_lenient(2) [of inp _ _ m]
  by blast

theorem TracingAdapter_init_type_check_witness:
  "flatten_to_tuple (as_tuple (PList [PDict [(KStr ''image'', PTensor (0::nat)), (KStr ''file'', PStr ''a.jpg'')]]))
     = Inr ([PStr ''a.jpg'', PTensor 0],
         TupleSchema [ListSchema [DictSchema [IdentitySchema, IdentitySchema] [1, 1]
           [''file'', ''image'']] [2]] [2])
   \<and> \<not> list_all (\<lambda>x. isinstance x CTensor) [PStr ''a.jpg'', PTensor (0::nat)]
   \<and> TracingAdapter_init (Module True)
         (PList [PDict [(KStr ''image'', PTensor (0::nat)), (KStr ''file'', PStr ''a.jpg'')]]) False
       = Inl ValueError
   \<and> (\<exists>a. TracingAdapter_init (Module True)
         (PList [PDict [(KStr ''image'', PTensor (0::nat)), (KStr ''file'', PStr ''a.jpg'')]]) True
       = Inr a \<and> flattened_inputs a = [PTensor 0] \<and> inputs_schema a = None)"
proof -
  let ?inp = "PList [PDict [(KStr ''image'', PTensor (0::nat)), (KStr ''file'', PStr ''a.jpg'')]]"
  let ?flat = "[PStr ''a.jpg'', PTensor (0::nat)]"
  let ?sch = "TupleSchema [ListSchema [DictSchema [IdentitySchema, IdentitySchema] [1, 1]
           [''file'', ''image'']] [2]] [2]"
  note T = TracingAdapter_init_type_check [of "Module True" ?inp]
  have fl: "flatten_to_tuple (as_tuple ?inp) = Inr (?flat, ?sch)"
    by code_simp
  have nt: "\<not> list_all (\<lambda>x. isinstance x CTensor) ?flat"
    by simp
  have strict: "TracingAdapter_init (Module True) ?inp False = Inl ValueError"
    using T fl nt by blast
  from T fl nt obtain a where a: "TracingAdapter_init (Module True) ?inp True = Inr a"
    "flattened_inputs a = filter (\<lambda>x. isinstance x CTensor) ?flat" "inputs_schema a = None"
    by blast
  have "flattened_inputs a = [PTensor 0]"
    using a(2) by simp
  with a(1,3) fl nt strict show ?thesis
    by blast
qed

text \<open>
  C10 (training flag), as the code has it. \<open>flop_count_operators\<close> and
  \<open>_wrapper_count_operators\<close> restore the saved flag on the way to their \<open>return\<close> only: when a
  call returns a result, the model's \<open>training\<close> flag after the call is its value before.
\<close>

theorem count_operators_restore_training:
  "(fst (flop_count_operators by_operator g m inp) = Inr r \<longrightarrow>
      training (snd (flop_count_operators by_operator g m inp)) = training m)
   \<and> (fst (wrapper_count_operators fc ac m' inp' mode kw) = Inr r' \<longrightarrow>
      training (snd (wrapper_count_operators fc ac m' inp' mode kw)) = training m')"
  using flop_count_operators_restores [of by_operator g m inp r]
    wrapper_count_operators_restores [of fc ac m' inp' mode kw r']
  by blast

theorem count_operators_restore_training_witness:
  "flop_count_operators (\<lambda>a. (Inr [(''conv'', 3::nat)], a)) (\<lambda>v. v) (Module True)
      (PList [PDict [(KStr ''image'', PTensor (0::nat))]])
     = (Inr [(''conv'', 3)], Module True)
   \<and> wrapper_count_operators (\<lambda>w xs kw. (Inr (Counts (5::nat)), w))
        (\<lambda>w xs kw. (Inr (Counts (7::nat)), w))
        (DataParallel True True) [[(KStr ''image'', PTensor (0::nat))]] ''flops''
        \<lparr>supported_ops = None, other_kwargs = ()\<rparr>
     = (Inr 5, DataParallel True True)
   \<and> training (snd (flop_count_operators (\<lambda>a. (Inr [(''conv'', 3::nat)], a)) (\<lambda>v. v) (Module True)
      (PList [PDict [(KStr ''image'', PTensor (0::nat))]]))) = training (Module True)
   \<and> training (snd (wrapper_count_operators (\<lambda>w xs kw. (Inr (Counts (5::nat)), w))
        (\<lambda>w xs kw. (Inr (Counts (7::nat)), w))
        (DataParallel True True) [[(KStr ''image'', PTensor (0::nat))]] ''flops''
        \<lparr>supported_ops = None, other_kwargs = ()\<rparr>)) = training (DataParallel True True)"
proof -
  have a: "flop_count_operators (\<lambda>a. (Inr [(''conv'', 3::nat)], a)) (\<lambda>v. v) (Module True)
      (PList [PDict [(KStr ''image'', PTensor (0::nat))]])
     = (Inr [(''conv'', 3)], Module True)"
    by code_simp
  have b: "wrapper_count_operators (\<lambda>w xs kw. (Inr (Counts (5::nat)), w))
        (\<lambda>w xs kw. (Inr (Counts (7::nat)), w))
        (DataParallel True True) [[(KStr ''image'', PTensor (0::nat))]] ''flops''
        \<lparr>supported_ops = None, other_kwargs = ()\<rparr>
     = (Inr 5, DataParallel True True)"
    by code_simp
  from count_operators_restore_training
    [of "\<lambda>a. (Inr [(''conv'', 3::nat)], a)" "\<lambda>v. v" "Module True"
        "PList [PDict [(KStr ''image'', PTensor (0::nat))]]" "[(''conv'', 3)]"
        "\<lambda>w xs kw. (Inr (Counts (5::nat)), w)" "\<lambda>w xs kw. (Inr (Counts (7::nat)), w)"
        "DataParallel True True" "[[(KStr ''image'', PTensor (0::nat))]]" "''flops''"
        "\<lparr>supported_ops = None, other_kwargs = ()\<rparr>" 5]
  show ?thesis
    unfolding a b by simp
qed

theorem count_operators_training_counterexample:
  "training (snd (flop_count_operators (\<lambda>a. (Inr [(''conv'', 3::nat)], a)) (\<lambda>v. v) (Module True)
      (PList [PDict [(KInt 1, PTensor (0::nat))]]))) \<noteq> training (Module True)
   \<and> training (snd (wrapper_count_operators (\<lambda>w xs kw. (Inr (Counts (5::nat)), w))
        (\<lambda>w xs kw. (Inr (Counts (7::nat)), w))
        (Module True) [[(KStr ''image'', PTensor (0::nat))]] ''parameters''
        \<lparr>supported_ops = None, other_kwargs = ()\<rparr>)) \<noteq> training (Module True)"
proof -
  have a: "flop_count_operators (\<lambda>a. (Inr [(''conv'', 3::nat)], a)) (\<lambda>v. v) (Module True)
      (PList [PDict [(KInt 1, PTensor (0::nat))]])
     = (Inl KeyError, Module False)"
    by code_simp
  have b: "wrapper_count_operators (\<lambda>w xs kw. (Inr (Counts (5::nat)), w))
        (\<lambda>w xs kw. (Inr (Counts (7::nat)), w))
        (Module True) [[(KStr ''image'', PTensor (0::nat))]] ''parameters''
        \<lparr>supported_ops = None, other_kwargs = ()\<rparr>
     = (Inl NotImplementedError, Module False)"
    by code_simp
  show ?thesis
    unfolding a b by simp
qed

text \<open>
  C7 (config structure). The model declared in \<open>resnet18_tusimple.py\<close> is a lazy call of
  \<open>GSENet\<close> with exactly three arguments, named \<open>backbone\<close>, \<open>neck\<close> and \<open>head\<close>, which are
  lazy calls of \<open>ResNetWrapper\<close>, \<open>FPN\<close> and \<open>GSEHead\<close>.
\<close>

theorem resnet18_tusimple_model_stages:
  "lazy_target resnet18_tusimple_model = Some ''GSENet'' \<and>
   map fst (lazy_kwargs resnet18_tusimple_model) = [''backbone'', ''neck'', ''head''] \<and>
   map (\<lambda>kv. lazy_target (snd kv)) (lazy_kwargs resnet18_tusimple_model)
     = [Some ''ResNetWrapper'', Some ''FPN'', Some ''GSEHead'']"
  by (simp add: resnet18_tusimple_model_def)

text \<open>
  C1 (round trip), as the code has it. For every well-formed object, if
  \<open>flatten_to_tuple obj\<close> returns \<open>(res, schema)\<close> then calling the schema on \<open>res\<close> returns
  an object \<open>obj'\<close> that rebuilds \<open>obj\<close>: when \<open>obj\<close> is a list, a tuple, a mapping, a \<open>str\<close> or
  a \<open>bytes\<close>, \<open>obj' == obj\<close> is true whatever \<open>==\<close> does on the other leaves (they are the
  same objects); when \<open>obj\<close> is another leaf, \<open>obj'\<close> is \<open>obj\<close> itself, so that \<open>obj' == obj\<close> is
  what \<open>obj == obj\<close> is.
\<close>

theorem flatten_to_tuple_roundtrip:
  assumes "wf_obj obj" and "flatten_to_tuple obj = Inr (res, s)"
  shows "\<exists>obj'. schema_call s res = Inr obj' \<and>
           (if opaque obj then obj' = obj else py_eq eqo obj' obj)"
proof -
  from flatten_roundtrip [OF assms] obtain obj' where
    o: "schema_call s res = Inr obj'" "struct_eq obj' obj" by blast
  show ?thesis
  proof (cases "opaque obj")
    case True
    then have "obj' = obj" using o(2) by (cases obj; cases obj') auto
    then show ?thesis using o(1) True by simp
  next
    case False
    then have "\<not> opaque obj'" using o(2) by (cases obj; cases obj') auto
    then have "py_eq eqo obj' obj" using o(2) by (simp add: struct_eq_py_eq)
    then show ?thesis using o(1) False by simp
  qed
qed

theorem flatten_to_tuple_roundtrip_witness:
  "wf_obj (PDict [(KStr ''b'', PList [PTensor (1::nat), PStr ''x'']), (KStr ''a'', PTuple [POther 2])])
   \<and> flatten_to_tuple (PDict [(KStr ''b'', PList [PTensor (1::nat), PStr ''x'']), (KStr ''a'', PTuple [POther 2])])
       = Inr ([POther 2, PTensor 1, PStr ''x''],
           DictSchema [TupleSchema [IdentitySchema] [1], ListSchema [IdentitySchema, IdentitySchema] [1, 1]]
             [1, 2] [''a'', ''b''])
   \<and> schema_call
         (DictSchema [TupleSchema [IdentitySchema] [1], ListSchema [IdentitySchema, IdentitySchema] [1, 1]]
             [1, 2] [''a'', ''b''])
         [POther 2, PTensor (1::nat), PStr ''x'']
       = Inr (PDict [(KStr ''a'', PTuple [POther 2]), (KStr ''b'', PList [PTensor 1, PStr ''x''])])
   \<and> py_eq (\<lambda>a b. False)
         (PDict [(KStr ''a'', PTuple [POther 2]), (KStr ''b'', PList [PTensor (1::nat), PStr ''x''])])
         (PDict [(KStr ''b'', PList [PTensor 1, PStr ''x'']), (KStr ''a'', PTuple [POther 2])])"
proof -
  let ?obj = "PDict [(KStr ''b'', PList [PTensor (1::nat), PStr ''x'']), (KStr ''a'', PTuple [POther 2])]"
  let ?res = "[POther 2, PTensor (1::nat), PStr ''x'']"
  let ?s = "DictSchema [TupleSchema [IdentitySchema] [1], ListSchema [IdentitySchema, IdentitySchema] [1, 1]]
             [1, 2] [''a'', ''b'']"
  let ?obj' = "PDict [(KStr ''a'', PTuple [POther 2]), (KStr ''b'', PList [PTensor (1::nat), PStr ''x''])]"
  have wf: "wf_obj ?obj"
    by simp
  have fl: "flatten_to_tuple ?obj = Inr (?res, ?s)"
    by code_simp
  have call: "schema_call ?s ?res = Inr ?obj'"
    by code_simp
  from flatten_to_tuple_roundtrip [OF wf fl, of "\<lambda>a b. False"]
  have "py_eq (\<lambda>a b. False) ?obj' ?obj"
    unfolding call by simp
  with wf fl call show ?thesis
    by blast
qed

theorem flatten_to_tuple_roundtrip_counterexample:
  "flatten_to_tuple (POther (0::nat)) = Inr ([POther 0], IdentitySchema)
   \<and> schema_call IdentitySchema [POther (0::nat)] = Inr (POther 0)
   \<and> \<not> py_eq (\<lambda>a b. False) (POther (0::nat)) (POther 0)"
  by (simp add: flatten_to_tuple_leaf)

text \<open>
  C8 (insertion order does not matter), as the code has it. Two mappings with the same key set
  and, for each key, values of the same structure with the same leaves (\<open>struct_eq\<close>: lists and
  tuples elementwise, nested mappings whatever their insertion order) flatten to the same
  result: the same flattened tuple and the same schema. When all their keys are \<open>str\<close>, at
  every depth, both calls return such a result.
\<close>

theorem flatten_to_tuple_insertion_order:
  assumes "wf_obj (PDict d1)" and "wf_obj (PDict d2)"
    and "\<forall>k. rel_option struct_eq (map_of d1 k) (map_of d2 k)"
  shows "flatten_to_tuple (PDict d1) = flatten_to_tuple (PDict d2) \<and>
         (\<not> has_nonstr_key (PDict d1) \<longrightarrow>
            (\<exists>res s. flatten_to_tuple (PDict d1) = Inr (res, s)
               \<and> flatten_to_tuple (PDict d2) = Inr (res, s)))"
proof -
  have eq: "flatten_to_tuple (PDict d1) = flatten_to_tuple (PDict d2)"
    using flatten_struct_eq [OF assms(1,2) struct_eq_dictI [OF assms]] .
  moreover have "\<exists>res s. flatten_to_tuple (PDict d1) = Inr (res, s)"
    if "\<not> has_nonstr_key (PDict d1)"
    using flatten_KeyError [OF assms(1)] that by auto
  ultimately show ?thesis by auto
qed

theorem flatten_to_tuple_insertion_order_witness:
  "wf_obj (PDict [(KStr ''b'', PTensor (1::nat)),
             (KStr ''a'', PDict [(KStr ''y'', POther 2), (KStr ''x'', POther 3)])])
   \<and> wf_obj (PDict [(KStr ''a'', PDict [(KStr ''x'', POther 3), (KStr ''y'', POther 2)]),
             (KStr ''b'', PTensor (1::nat))])
   \<and> flatten_to_tuple (PDict [(KStr ''b'', PTensor (1::nat)),
             (KStr ''a'', PDict [(KStr ''y'', POther 2), (KStr ''x'', POther 3)])])
     = Inr ([POther 3, POther 2, PTensor 1],
         DictSchema [DictSchema [IdentitySchema, IdentitySchema] [1, 1] [''x'', ''y''], IdentitySchema]
           [2, 1] [''a'', ''b''])
   \<and> flatten_to_tuple (PDict [(KStr ''a'', PDict [(KStr ''x'', POther 3), (KStr ''y'', POther 2)]),
             (KStr ''b'', PTensor (1::nat))])
     = Inr ([POther 3, POther 2, PTensor 1],
         DictSchema [DictSchema [IdentitySchema, IdentitySchema] [1, 1] [''x'', ''y''], IdentitySchema]
           [2, 1] [''a'', ''b''])"
proof -
  let ?d1 = "[(KStr ''b'', PTensor (1::nat)),
             (KStr ''a'', PDict [(KStr ''y'', POther 2), (KStr ''x'', POther 3)])]"
  let ?d2 = "[(KStr ''a'', PDict [(KStr ''x'', POther 3), (KStr ''y'', POther 2)]),
             (KStr ''b'', PTensor (1::nat))]"
  have wf1: "wf_obj (PDict ?d1)" by simp
  have wf2: "wf_obj (PDict ?d2)" by simp
  have same: "\<forall>k. rel_option struct_eq (map_of ?d1 k) (map_of ?d2 k)" by simp
  have fl: "flatten_to_tuple (PDict ?d1) = Inr ([POther 3, POther 2, PTensor 1],
         DictSchema [DictSchema [IdentitySchema, IdentitySchema] [1, 1] [''x'', ''y''], IdentitySchema]
           [2, 1] [''a'', ''b''])"
    by code_simp
  from flatten_to_tuple_insertion_order [OF wf1 wf2 same] wf1 wf2 fl show ?thesis
    by simp
qed

theorem flatten_to_tuple_insertion_order_counterexample:
  "wf_obj (PDict [(KStr ''a'', POther (0::nat))])
   \<and> wf_obj (PDict [(KStr ''a'', PList [POther (1::nat)])])
   \<and> py_eq (\<lambda>a b. (a = POther 0 \<and> b = PList [POther 1]) \<or> (a = PList [POther 1] \<and> b = POther 0))
        (PDict [(KStr ''a'', POther (0::nat))]) (PDict [(KStr ''a'', PList [POther 1])])
   \<and> flatten_to_tuple (PDict [(KStr ''a'', POther (0::nat))])
       = Inr ([POther 0], DictSchema [IdentitySchema] [1] [''a''])
   \<and> flatten_to_tuple (PDict [(KStr ''a'', PList [POther (1::nat)])])
       = Inr ([POther 1], DictSchema [ListSchema [IdentitySchema] [1]] [1] [''a''])
   \<and> flatten_to_tuple (PDict [(KStr ''a'', POther (0::nat))])
       \<noteq> flatten_to_tuple (PDict [(KStr ''a'', PList [POther (1::nat)])])"
proof -
  have a: "flatten_to_tuple (PDict [(KStr ''a'', POther (0::nat))])
       = Inr ([POther 0], DictSchema [IdentitySchema] [1] [''a''])"
    by code_simp
  have b: "flatten_to_tuple (PDict [(KStr ''a'', PList [POther (1::nat)])])
       = Inr ([POther 1], DictSchema [ListSchema [IdentitySchema] [1]] [1] [''a''])"
    by code_simp
  show ?thesis
    unfolding a b by simp
qed

text \<open>
  C6 (CLI dispatch), as the code has it. Every task name that \<open>--tasks\<close> accepts selects the
  function the specification names for it. When the arguments are accepted and the
  configuration loads, the script does exactly what invoking the functions of the given tasks
  does, in the order given, one invocation per occurrence, until one of them raises, which ends
  the script; each is given the loaded configuration with \<open>train.init_checkpoint\<close> replaced by
  the \<open>--ckpt\<close> argument. With functions that only record their invocation, the record is the
  whole sequence.
\<close>

theorem analysis_dispatch:
  "(\<forall>t\<in>set task_choices. map_of task_table t = Some (handler_of t)) \<and>
   (parse_tasks (tasks a) = Inr ts \<and> \<not> eval_only a \<and> num_gpus a = 1 \<and> setup a = Inr c \<longrightarrow>
      main setup call a w
        = invoke_in_order call (c\<lparr>train_init_checkpoint := ckpt a\<rparr>) (map handler_of ts) w
      \<and> main setup record_call a []
        = (None, map (\<lambda>t. (handler_of t, c\<lparr>train_init_checkpoint := ckpt a\<rparr>)) ts))"
proof (intro conjI ballI impI)
  fix t assume "t \<in> set task_choices"
  then show "map_of task_table t = Some (handler_of t)"
    by (rule task_table_handler)
next
  assume h: "parse_tasks (tasks a) = Inr ts \<and> \<not> eval_only a \<and> num_gpus a = 1 \<and> setup a = Inr c"
  then have ts: "ts = tasks a" and ne: "tasks a \<noteq> []"
    and ok: "list_all (\<lambda>t. t \<in> set task_choices) (tasks a)"
    by (auto simp: parse_tasks_def list_all_iff list_ex_iff split: if_splits)
  show "main setup call a w
      = invoke_in_order call (c\<lparr>train_init_checkpoint := ckpt a\<rparr>) (map handler_of ts) w"
    unfolding ts using h ne ok by (intro main_invoke) simp_all
  have "main setup record_call a []
      = invoke_in_order record_call (c\<lparr>train_init_checkpoint := ckpt a\<rparr>)
          (map handler_of (tasks a)) []"
    using h ne ok by (intro main_invoke) simp_all
  then show "main setup record_call a []
      = (None, map (\<lambda>t. (handler_of t, c\<lparr>train_init_checkpoint := ckpt a\<rparr>)) ts)"
    unfolding ts by (simp add: invoke_record comp_def)
qed

theorem analysis_dispatch_witness:
  "parse_tasks [''parameter'', ''flop'', ''parameter''] = Inr [''parameter'', ''flop'', ''parameter'']
   \<and> main (\<lambda>a. Inr \<lparr>train_init_checkpoint = None, cfg_rest = config_file a\<rparr>)
       record_call
       \<lparr>config_file = ''resnet18_tusimple.py'', opts = [], ckpt = Some ''model.pth'',
         tasks = [''parameter'', ''flop'', ''parameter''], num_inputs = 100, eval_only = False,
         num_gpus = 1\<rparr> []
     = (None,
        [(do_parameter, \<lparr>train_init_checkpoint = Some ''model.pth'', cfg_rest = ''resnet18_tusimple.py''\<rparr>),
         (do_flop, \<lparr>train_init_checkpoint = Some ''model.pth'', cfg_rest = ''resnet18_tusimple.py''\<rparr>),
         (do_parameter, \<lparr>train_init_checkpoint = Some ''model.pth'', cfg_rest = ''resnet18_tusimple.py''\<rparr>)])"
proof -
  let ?load = "\<lambda>a. Inr \<lparr>train_init_checkpoint = None, cfg_rest = config_file a\<rparr> :: error + string cfg"
  let ?a = "\<lparr>config_file = ''resnet18_tusimple.py'', opts = [], ckpt = Some ''model.pth'',
         tasks = [''parameter'', ''flop'', ''parameter''], num_inputs = 100, eval_only = False,
         num_gpus = 1\<rparr>"
  let ?ts = "[''parameter'', ''flop'', ''parameter'']"
  let ?c = "\<lparr>train_init_checkpoint = None, cfg_rest = ''resnet18_tusimple.py''\<rparr>"
  have p: "parse_tasks ?ts = Inr ?ts"
    by (simp add: parse_tasks_def task_choices_def)
  have pre: "parse_tasks (tasks ?a) = Inr ?ts \<and> \<not> eval_only ?a \<and> num_gpus ?a = 1 \<and> ?load ?a = Inr ?c"
    using p by simp
  from analysis_dispatch [of ?a ?ts ?load ?c record_call "[]", THEN conjunct2, THEN mp, OF pre]
  have "main ?load record_call ?a []
      = (None, map (\<lambda>t. (handler_of t, ?c\<lparr>train_init_checkpoint := ckpt ?a\<rparr>)) ?ts)"
    by (rule conjunct2)
  then show ?thesis
    using p by (simp add: handler_of_def)
qed

theorem analysis_dispatch_counterexample:
  "main (\<lambda>a. Inr \<lparr>train_init_checkpoint = Some ''pretrained.pth'', cfg_rest = ()\<rparr>) record_call
       \<lparr>config_file = ''resnet18_tusimple.py'', opts = [], ckpt = None,
         tasks = [''parameter''], num_inputs = 100, eval_only = False, num_gpus = 1\<rparr> []
     = (None, [(do_parameter, \<lparr>train_init_checkpoint = None, cfg_rest = ()\<rparr>)])
   \<and> snd (main (\<lambda>a. Inr \<lparr>train_init_checkpoint = Some ''pretrained.pth'', cfg_rest = ()\<rparr>) record_call
       \<lparr>config_file = ''resnet18_tusimple.py'', opts = [], ckpt = None,
         tasks = [''parameter''], num_inputs = 100, eval_only = False, num_gpus = 1\<rparr> [])
     \<noteq> map (\<lambda>t. (handler_of t, \<lparr>train_init_checkpoint = Some ''pretrained.pth'', cfg_rest = ()\<rparr>))
         [''parameter'']
   \<and> main (\<lambda>a. Inr \<lparr>train_init_checkpoint = Some ''pretrained.pth'', cfg_rest = ()\<rparr>)
       (\<lambda>f c w. if f = do_flop then (Some ValueError, w @ [(f, c)]) else record_call f c w)
       \<lparr>config_file = ''resnet18_tusimple.py'', opts = [], ckpt = Some ''pretrained.pth'',
         tasks = [''flop'', ''parameter''], num_inputs = 100, eval_only = False, num_gpus = 1\<rparr> []
     = (Some ValueError, [(do_flop, \<lparr>train_init_checkpoint = Some ''pretrained.pth'', cfg_rest = ()\<rparr>)])
   \<and> snd (main (\<lambda>a. Inr \<lparr>train_init_checkpoint = Some ''pretrained.pth'', cfg_rest = ()\<rparr>)
       (\<lambda>f c w. if f = do_flop then (Some ValueError, w @ [(f, c)]) else record_call f c w)
       \<lparr>config_file = ''resnet18_tusimple.py'', opts = [], ckpt = Some ''pretrained.pth'',
         tasks = [''flop'', ''parameter''], num_inputs = 100, eval_only = False, num_gpus = 1\<rparr> [])
     \<noteq> map (\<lambda>t. (handler_of t, \<lparr>train_init_checkpoint = Some ''pretrained.pth'', cfg_rest = ()\<rparr>))
         [''flop'', ''parameter'']"
proof -
  have a: "main (\<lambda>a. Inr \<lparr>train_init_checkpoint = Some ''pretrained.pth'', cfg_rest = ()\<rparr>) record_call
       \<lparr>config_file = ''resnet18_tusimple.py'', opts = [], ckpt = None,
         tasks = [''parameter''], num_inputs = 100, eval_only = False, num_gpus = 1\<rparr> []
     = (None, [(do_parameter, \<lparr>train_init_checkpoint = None, cfg_rest = ()\<rparr>)])"
    by code_simp
  have b: "main (\<lambda>a. Inr \<lparr>train_init_checkpoint = Some ''pretrained.pth'', cfg_rest = ()\<rparr>)
       (\<lambda>f c w. if f = do_flop then (Some ValueError, w @ [(f, c)]) else record_call f c w)
       \<lparr>config_file = ''resnet18_tusimple.py'', opts = [], ckpt = Some ''pretrained.pth'',
         tasks = [''flop'', ''parameter''], num_inputs = 100, eval_only = False, num_gpus = 1\<rparr> []
     = (Some ValueError, [(do_flop, \<lparr>train_init_checkpoint = Some ''pretrained.pth'', cfg_rest = ()\<rparr>)])"
    by code_simp
  show ?thesis
    unfolding a b by (simp add: handler_of_def)
qed

end
